theory Spec2Isabelle
  imports Main
begin

section \<open>JavaScript values used by the hoister\<close>

text \<open>
  The hoister (\<^verbatim>\<open>packages/yarnpkg-pnpify/sources/hoist.ts\<close>) works on objects that are
  shared and mutated in place, held in \<^verbatim>\<open>Map\<close>s and \<^verbatim>\<open>Set\<close>s that iterate in insertion
  order.  Objects are modelled by addresses into a store; a \<^verbatim>\<open>Map\<close> is the entry list of
  the ECMAScript specification: \<^verbatim>\<open>set\<close> on a new key appends an entry, \<^verbatim>\<open>set\<close> on a
  present key overwrites the value in place, and \<^verbatim>\<open>delete\<close> empties the entry where
  it stands (\<open>None\<close>), so that an iteration by position that is under way sees the
  changes the loop body makes.  A \<^verbatim>\<open>Set\<close> that is never deleted from while it is
  iterated is the list of its elements in insertion order.
\<close>

type_synonym ('k, 'v) jsmap = "('k \<times> 'v) option list"

definition jm_entries :: "('k, 'v) jsmap \<Rightarrow> ('k \<times> 'v) list" where
  "jm_entries m = List.map_filter id m"

definition jm_get :: "('k, 'v) jsmap \<Rightarrow> 'k \<Rightarrow> 'v option" where
  "jm_get m k = map_of (jm_entries m) k"

definition jm_has :: "('k, 'v) jsmap \<Rightarrow> 'k \<Rightarrow> bool" where
  "jm_has m k = (jm_get m k \<noteq> None)"

definition jm_keys :: "('k, 'v) jsmap \<Rightarrow> 'k list" where
  "jm_keys m = map fst (jm_entries m)"

definition jm_values :: "('k, 'v) jsmap \<Rightarrow> 'v list" where
  "jm_values m = map snd (jm_entries m)"

fun jm_set :: "('k, 'v) jsmap \<Rightarrow> 'k \<Rightarrow> 'v \<Rightarrow> ('k, 'v) jsmap" where
  "jm_set [] k v = [Some (k, v)]"
| "jm_set (None # m) k v = None # jm_set m k v"
| "jm_set (Some (k', v') # m) k v =
     (if k' = k then Some (k, v) # m else Some (k', v') # jm_set m k v)"

fun jm_delete :: "('k, 'v) jsmap \<Rightarrow> 'k \<Rightarrow> ('k, 'v) jsmap" where
  "jm_delete [] k = []"
| "jm_delete (None # m) k = None # jm_delete m k"
| "jm_delete (Some (k', v') # m) k =
     (if k' = k then None # m else Some (k', v') # jm_delete m k)"

text \<open>\<^verbatim>\<open>new Map(m)\<close>: the live entries of \<open>m\<close>, in order, in a fresh map.\<close>

definition jm_copy :: "('k, 'v) jsmap \<Rightarrow> ('k, 'v) jsmap" where
  "jm_copy m = map Some (jm_entries m)"

text \<open>\<^verbatim>\<open>s.add(x)\<close> and \<^verbatim>\<open>s.delete(x)\<close> on a \<^verbatim>\<open>Set\<close>.\<close>

definition js_add :: "'a list \<Rightarrow> 'a \<Rightarrow> 'a list" where
  "js_add s x = (if x \<in> set s then s else s @ [x])"

definition js_delete :: "'a list \<Rightarrow> 'a \<Rightarrow> 'a list" where
  "js_delete s x = removeAll x s"

text \<open>
  \<^verbatim>\<open>s.indexOf(c, from)\<close> for a one-character pattern (\<open>None\<close> is the result \<^verbatim>\<open>-1\<close>)
  and \<^verbatim>\<open>s.substring(start)\<close>.  \<^verbatim>\<open>s.substring(0, e)\<close> with \<^verbatim>\<open>e = -1\<close> is the empty
  string: \<^verbatim>\<open>substring\<close> reads a negative bound as 0.
\<close>

fun indexOf_aux :: "char \<Rightarrow> string \<Rightarrow> nat \<Rightarrow> nat option" where
  "indexOf_aux c [] i = None"
| "indexOf_aux c (x # xs) i = (if x = c then Some i else indexOf_aux c xs (Suc i))"

definition indexOf :: "string \<Rightarrow> char \<Rightarrow> nat \<Rightarrow> nat option" where
  "indexOf s c from = indexOf_aux c (drop from s) from"

definition substring_to :: "string \<Rightarrow> nat option \<Rightarrow> string" where
  "substring_to s e = (case e of None \<Rightarrow> [] | Some i \<Rightarrow> take i s)"

definition substring_from :: "string \<Rightarrow> nat \<Rightarrow> string" where
  "substring_from s i = drop i s"

section \<open>Node model and identity\<close>

type_synonym PackageName = string
type_synonym Locator = string
type_synonym Ident = string
type_synonym addr = nat

text \<open>
  \<^verbatim>\<open>HoisterTree\<close>, the input node.  The input graph may be cyclic, so the nodes live in
  a store (a list, an object being its position) and \<open>dependencies_in\<close> holds
  positions, in the insertion order of the \<^verbatim>\<open>Set\<close>.
\<close>

record HoisterTree =
  name_in :: PackageName
  identName_in :: PackageName
  reference_in :: string
  dependencies_in :: "addr list"
  peerNames_in :: "PackageName list"

text \<open>\<^verbatim>\<open>HoisterWorkTree\<close>, the node of the work tree.\<close>

record HoisterWorkTree =
  name :: PackageName
  references :: "string list"
  ident :: Ident
  locator :: Locator
  dependencies :: "(PackageName, addr) jsmap"
  originalDependencies :: "(PackageName, addr) jsmap"
  hoistedDependencies :: "(PackageName, addr) jsmap"
  peerNames :: "PackageName list"
  decoupled :: bool
  reasons :: "(PackageName, string option) jsmap"

type_synonym heap = "HoisterWorkTree list"

text \<open>\<^verbatim>\<open>HoisterResult\<close>, the output node; the output is a store of its own.\<close>

record HoisterResult =
  name_out :: PackageName
  identName_out :: PackageName
  references_out :: "string list"
  dependencies_out :: "addr list"

type_synonym PopularityMap = "(string, Ident list) jsmap"

datatype HoistInfo = YES | NO "string option" | DEPENDS "addr list"

definition makeLocator :: "string \<Rightarrow> string \<Rightarrow> Locator" where
  "makeLocator nm reference = nm @ ''@'' @ reference"

definition makeIdent :: "string \<Rightarrow> string \<Rightarrow> Ident" where
  "makeIdent nm reference =
     (let realReference =
        (case indexOf reference CHR ''#'' 0 of
           Some hashIdx \<Rightarrow> substring_from reference (hashIdx + 1)
         | None \<Rightarrow> reference)
      in makeLocator nm realReference)"

section \<open>Options\<close>

text \<open>
  \<^verbatim>\<open>HoistOptions\<close>: both fields may be absent.  \<open>env\<close> is the value of
  \<^verbatim>\<open>process.env.NM_DEBUG_LEVEL\<close> (\<open>None\<close> when unset) and \<open>num\<close> stands for JavaScript's
  \<^verbatim>\<open>Number\<close> on strings.  The line modelled is
  \<^verbatim>\<open>opts.debugLevel || Number(process.env.NM_DEBUG_LEVEL || -1)\<close>:
  \<^verbatim>\<open>||\<close> takes its right operand when the left one is falsy, and \<^verbatim>\<open>undefined\<close>, the
  number 0 and the empty string are falsy.
\<close>

record HoistOptions =
  check :: "bool option"
  debugLevel :: "int option"

record InternalHoistOptions =
  icheck :: bool
  idebugLevel :: int

definition env_debugLevel :: "(string \<Rightarrow> int) \<Rightarrow> string option \<Rightarrow> int" where
  "env_debugLevel num env =
     (case env of
        None \<Rightarrow> -1
      | Some s \<Rightarrow> if s = [] then -1 else num s)"

definition effective_debugLevel :: "(string \<Rightarrow> int) \<Rightarrow> HoistOptions \<Rightarrow> string option \<Rightarrow> int" where
  "effective_debugLevel num opts env =
     (case debugLevel opts of
        None \<Rightarrow> env_debugLevel num env
      | Some d \<Rightarrow> if d = 0 then env_debugLevel num env else d)"

definition internal_options :: "(string \<Rightarrow> int) \<Rightarrow> HoistOptions \<Rightarrow> string option \<Rightarrow> InternalHoistOptions" where
  "internal_options num opts env =
     (let dl = effective_debugLevel num opts env
      in \<lparr>icheck = (case check opts of Some True \<Rightarrow> True | _ \<Rightarrow> 9 \<le> dl), idebugLevel = dl\<rparr>)"

text \<open>\<^verbatim>\<open>console.time(`hoist`)\<close> runs when \<^verbatim>\<open>options.debugLevel >= 0\<close>.\<close>

definition timing_output :: "InternalHoistOptions \<Rightarrow> bool" where
  "timing_output options = (0 \<le> idebugLevel options)"

section \<open>Candidate identities: \<^verbatim>\<open>getHoistIdentMap\<close>\<close>

definition popularity_size :: "PopularityMap \<Rightarrow> string \<Rightarrow> int" where
  "popularity_size popularityMap key =
     (case jm_get popularityMap key of None \<Rightarrow> 0 | Some parents \<Rightarrow> int (length parents))"

text \<open>
  \<^verbatim>\<open>keyList.sort((key1, key2) => size(key2) - size(key1))\<close>: a stable sort by
  descending size (\<^verbatim>\<open>Array.prototype.sort\<close> is stable).
\<close>

definition sorted_keyList :: "PopularityMap \<Rightarrow> string list" where
  "sorted_keyList popularityMap =
     sort_key (\<lambda>key. - popularity_size popularityMap key) (jm_keys popularityMap)"

definition identMap_add_key ::
    "PackageName list \<Rightarrow> string \<Rightarrow> (PackageName, Ident list) jsmap \<Rightarrow> (PackageName, Ident list) jsmap" where
  "identMap_add_key rootPeerNames key identMap =
     (let nm = substring_to key (indexOf key CHR ''@'' 1);
          idt = substring_from key (length nm + 1)
      in if nm \<notin> set rootPeerNames then
           (let idents = (case jm_get identMap nm of None \<Rightarrow> [] | Some ids \<Rightarrow> ids)
            in jm_set identMap nm (if idt \<in> set idents then idents else idents @ [idt]))
         else identMap)"

definition identMap_add_dep ::
    "heap \<Rightarrow> PackageName list \<Rightarrow> addr \<Rightarrow> (PackageName, Ident list) jsmap \<Rightarrow> (PackageName, Ident list) jsmap" where
  "identMap_add_dep h rootPeerNames dep identMap =
     (if name (h ! dep) \<notin> set rootPeerNames
      then jm_set identMap (name (h ! dep)) [ident (h ! dep)]
      else identMap)"

definition getHoistIdentMap :: "heap \<Rightarrow> addr \<Rightarrow> PopularityMap \<Rightarrow> (PackageName, Ident list) jsmap" where
  "getHoistIdentMap h rootNode popularityMap =
     (let r = h ! rootNode;
          identMap0 = [Some (name r, [ident r])];
          identMap1 = fold (identMap_add_dep h (peerNames r)) (jm_values (dependencies r)) identMap0
      in fold (identMap_add_key (peerNames r)) (sorted_keyList popularityMap) identMap1)"

section \<open>Computations that may throw or not return\<close>

text \<open>
  The recursive functions of the source are modelled with a bound on the depth of their
  recursion: \<open>None\<close> is a run the bound cut short.  A run that returns gives
  \<open>Some (Inr v)\<close>, a run that throws gives \<open>Some (Inl e)\<close>.
\<close>

datatype error = SelfCheckError string | TypeError

type_synonym 'a comp = "(error + 'a) option"

definition bnd :: "'a comp \<Rightarrow> ('a \<Rightarrow> 'b comp) \<Rightarrow> 'b comp" where
  "bnd m f = (case m of None \<Rightarrow> None | Some (Inl e) \<Rightarrow> Some (Inl e) | Some (Inr x) \<Rightarrow> f x)"

definition ret :: "'a \<Rightarrow> 'a comp" where
  "ret x = Some (Inr x)"

definition throw :: "error \<Rightarrow> 'a comp" where
  "throw e = Some (Inl e)"

definition lift_option :: "'a option \<Rightarrow> 'a comp" where
  "lift_option m = map_option Inr m"

definition lift_sum :: "error + 'a \<Rightarrow> 'a comp" where
  "lift_sum m = Some m"

text \<open>A \<^verbatim>\<open>for ... of\<close> loop over a collection the body does not change.\<close>

fun ofold :: "('a \<Rightarrow> 's \<Rightarrow> 's option) \<Rightarrow> 'a list \<Rightarrow> 's \<Rightarrow> 's option" where
  "ofold f [] s = Some s"
| "ofold f (x # xs) s = (case f x s of None \<Rightarrow> None | Some s' \<Rightarrow> ofold f xs s')"

fun cfold :: "('a \<Rightarrow> 's \<Rightarrow> 's comp) \<Rightarrow> 'a list \<Rightarrow> 's \<Rightarrow> 's comp" where
  "cfold f [] s = ret s"
| "cfold f (x # xs) s = bnd (f x s) (cfold f xs)"

section \<open>Dependency ordering: \<^verbatim>\<open>getSortedRegularDependencies\<close>\<close>

text \<open>
  \<open>addDep\<close> threads the pair \<open>(seenDeps, dependencies)\<close>; \<open>nd\<close> is the node whose
  dependencies are sorted.
\<close>

fun addDep :: "nat \<Rightarrow> heap \<Rightarrow> HoisterWorkTree \<Rightarrow> addr \<Rightarrow> addr list \<times> addr list
    \<Rightarrow> (addr list \<times> addr list) option" where
  "addDep 0 h nd dep st = None"
| "addDep (Suc n) h nd dep (seenDeps, deps) =
     (if dep \<in> set seenDeps then Some (seenDeps, deps)
      else
        map_option (\<lambda>(s, d). (s, js_add d dep))
          (ofold
            (\<lambda>peerName (s, d).
               if peerName \<notin> set (peerNames nd) then
                 (case jm_get (dependencies nd) peerName of
                    Some peerDep \<Rightarrow>
                      if peerDep \<notin> set d then addDep n h nd peerDep (s, d) else Some (s, d)
                  | None \<Rightarrow> Some (s, d))
               else Some (s, d))
            (peerNames (h ! dep)) (js_add seenDeps dep, deps)))"

definition getSortedRegularDependencies :: "nat \<Rightarrow> heap \<Rightarrow> addr \<Rightarrow> addr list option" where
  "getSortedRegularDependencies n h node =
     ofold
       (\<lambda>dep deps.
          if name (h ! dep) \<notin> set (peerNames (h ! node))
          then map_option snd (addDep n h (h ! node) dep ([], deps))
          else Some deps)
       (jm_values (dependencies (h ! node))) []"

section \<open>Diagnostics: \<^verbatim>\<open>prettyPrintLocator\<close>\<close>

fun replace_first :: "string \<Rightarrow> string \<Rightarrow> string \<Rightarrow> string" where
  "replace_first pat rep [] = (if pat = [] then rep else [])"
| "replace_first pat rep (c # cs) =
     (if take (length pat) (c # cs) = pat then rep @ drop (length pat) (c # cs)
      else c # replace_first pat rep cs)"

definition split_second :: "char \<Rightarrow> string \<Rightarrow> string" where
  "split_second c s = takeWhile (\<lambda>x. x \<noteq> c) (tl (dropWhile (\<lambda>x. x \<noteq> c) s))"

definition starts_with :: "string \<Rightarrow> string \<Rightarrow> bool" where
  "starts_with p s = (take (length p) s = p)"

definition prettyPrintLocator :: "Locator \<Rightarrow> string" where
  "prettyPrintLocator loc =
     (let idx = indexOf loc CHR ''@'' 1;
          nm = substring_to loc idx;
          reference = substring_from loc (case idx of None \<Rightarrow> 0 | Some i \<Rightarrow> i + 1)
      in if reference = ''workspace:.'' then ''.''
         else if reference = [] then nm
         else
           (let version = replace_first ''npm:'' []
                  (if (case indexOf reference CHR ''#'' 0 of Some i \<Rightarrow> 0 < i | None \<Rightarrow> False)
                   then split_second CHR ''#'' reference else reference)
            in if starts_with ''virtual'' reference then ''v:'' @ nm @ ''@'' @ version
               else nm @ ''@'' @ version))"

text \<open>The separator of the printed paths, the arrow U+2192, as its UTF-8 bytes.\<close>

definition arrow :: string where
  "arrow = [CHR 0xE2, CHR 0x86, CHR 0x92]"

fun join :: "string \<Rightarrow> string list \<Rightarrow> string" where
  "join sep [] = []"
| "join sep [x] = x"
| "join sep (x # y # ys) = x @ sep @ join sep (y # ys)"

section \<open>Classification: \<^verbatim>\<open>getNodeHoistInfo\<close>\<close>

text \<open>
  The peer check threads \<open>(checkList, dependsOn, reason, arePeerDepsSatisfied)\<close>;
  \<open>dependsOn = None\<close> is \<^verbatim>\<open>null\<close>.  The inner loop runs over the names \<open>checkList\<close>
  held when it started: its body deletes the name it is at, or breaks.
\<close>

fun check_peers_of_parent :: "heap \<Rightarrow> bool \<Rightarrow> string \<Rightarrow> bool \<Rightarrow> addr \<Rightarrow> PackageName list
    \<Rightarrow> PackageName list \<times> addr list option \<times> string option \<times> bool
    \<Rightarrow> PackageName list \<times> addr list option \<times> string option \<times> bool" where
  "check_peers_of_parent h outputReason reasonRoot isLast parent [] st = st"
| "check_peers_of_parent h outputReason reasonRoot isLast parent (nm # rest)
       (checkList, dependsOn, reason, sat) =
     (if nm \<in> set (peerNames (h ! parent)) \<and> jm_has (originalDependencies (h ! parent)) nm
      then check_peers_of_parent h outputReason reasonRoot isLast parent rest
             (checkList, dependsOn, reason, sat)
      else
        (case jm_get (dependencies (h ! parent)) nm of
           Some parentDepNode \<Rightarrow>
             if isLast
             then check_peers_of_parent h outputReason reasonRoot isLast parent rest
                    (js_delete checkList nm,
                     map_option (\<lambda>d. js_add d parentDepNode) dependsOn, reason, False)
             else
               (checkList, None,
                (if outputReason
                 then Some (''- peer dependency '' @ prettyPrintLocator (locator (h ! parentDepNode))
                        @ '' from parent '' @ prettyPrintLocator (locator (h ! parent))
                        @ '' was not hoisted to '' @ reasonRoot)
                 else reason),
                False)
         | None \<Rightarrow>
             check_peers_of_parent h outputReason reasonRoot isLast parent rest
               (js_delete checkList nm, dependsOn, reason, sat)))"

text \<open>
  The outer loop, \<^verbatim>\<open>idx\<close> from \<^verbatim>\<open>nodePath.length - 1\<close> down to 1: \<open>parents\<close> are these
  nodes, nearest first, and \<open>isLast\<close> says that \<^verbatim>\<open>idx === nodePath.length - 1\<close>.
\<close>

fun check_peers :: "heap \<Rightarrow> bool \<Rightarrow> string \<Rightarrow> bool \<Rightarrow> addr list
    \<Rightarrow> PackageName list \<times> addr list option \<times> string option \<times> bool
    \<Rightarrow> PackageName list \<times> addr list option \<times> string option \<times> bool" where
  "check_peers h outputReason reasonRoot isLast [] st = st"
| "check_peers h outputReason reasonRoot isLast (parent # parents) (checkList, dependsOn, reason, sat) =
     (case check_peers_of_parent h outputReason reasonRoot isLast parent checkList
             (checkList, dependsOn, reason, sat) of
        (checkList', dependsOn', reason', sat') \<Rightarrow>
          if \<not> sat' then (checkList', dependsOn', reason', sat')
          else check_peers h outputReason reasonRoot False parents
                 (checkList', dependsOn', reason', sat'))"

text \<open>
  The first ancestor strictly between the root and the parent that holds another
  version under the node's name (\<^verbatim>\<open>idx\<close> from 1 to \<^verbatim>\<open>nodePath.length - 2\<close>).
\<close>

definition shadowing_parent :: "heap \<Rightarrow> addr list \<Rightarrow> addr \<Rightarrow> (addr \<times> addr) option" where
  "shadowing_parent h nodePath node =
     (case List.map_filter
             (\<lambda>parent.
                case jm_get (dependencies (h ! parent)) (name (h ! node)) of
                  Some parentDep \<Rightarrow>
                    if ident (h ! parentDep) \<noteq> ident (h ! node) then Some (parent, parentDep)
                    else None
                | None \<Rightarrow> None)
             (butlast (tl nodePath)) of
        [] \<Rightarrow> None
      | x # _ \<Rightarrow> Some x)"

text \<open>
  The hoisted dependency that holds the node's name with another identity
  (\<^verbatim>\<open>hoistedDep && hoistedDep.ident !== node.ident\<close>).
\<close>

definition filling_hoistedDep :: "heap \<Rightarrow> (PackageName, addr) jsmap \<Rightarrow> addr \<Rightarrow> addr option" where
  "filling_hoistedDep h hoistedDeps node =
     (case jm_get hoistedDeps (name (h ! node)) of
        Some hoistedDep \<Rightarrow>
          if ident (h ! hoistedDep) \<noteq> ident (h ! node) then Some hoistedDep else None
      | None \<Rightarrow> None)"

definition getNodeHoistInfo :: "heap \<Rightarrow> Locator list \<Rightarrow> addr list \<Rightarrow> addr
    \<Rightarrow> (PackageName, addr) jsmap \<Rightarrow> (PackageName, Ident option) jsmap
    \<Rightarrow> (PackageName, Ident list) jsmap \<Rightarrow> bool \<Rightarrow> error + HoistInfo" where
  "getNodeHoistInfo h rootNodePath nodePath node hoistedDeps hoistIdents hoistIdentMap
       outputReason =
     (if nodePath = [] then Inl TypeError
      else
        let reasonRoot = join arrow (map prettyPrintLocator rootNodePath);
            nd = h ! node;
            parentNode = last nodePath;
            isSelfReference = (ident nd = ident (h ! parentNode));
            hoistedIdent = (case jm_get hoistIdents (name nd) of Some (Some i) \<Rightarrow> Some i | _ \<Rightarrow> None);
            isHoistable = (hoistedIdent = Some (ident nd) \<and> \<not> isSelfReference)
        in
          if \<not> isHoistable then
            (if outputReason \<and> (case hoistedIdent of Some i \<Rightarrow> i \<noteq> [] | None \<Rightarrow> False) then
               (case jm_get hoistIdentMap (name nd) of
                  Some (topIdent # _) \<Rightarrow>
                    Inr (NO (Some (''- filled by: '' @ prettyPrintLocator topIdent @ '' at '' @ reasonRoot)))
                | _ \<Rightarrow> Inl TypeError)
             else Inr (NO None))
          else
            (case filling_hoistedDep h hoistedDeps node of
               Some hoistedDep \<Rightarrow>
                 Inr (NO (if outputReason
                          then Some (''- filled by: '' @ prettyPrintLocator (locator (h ! hoistedDep))
                                 @ '' at '' @ reasonRoot)
                          else None))
             | None \<Rightarrow>
                 (case shadowing_parent h nodePath node of
                    Some (parent, parentDep) \<Rightarrow>
                      Inr (NO (if outputReason
                               then Some (''- filled by: '' @ prettyPrintLocator (locator (h ! parentDep))
                                      @ '' at '' @ prettyPrintLocator (locator (h ! parent)))
                               else None))
                  | None \<Rightarrow>
                      (case check_peers h outputReason reasonRoot True (rev (tl nodePath))
                              (peerNames nd, Some [], None, True) of
                         (checkList, dependsOn, reason, sat) \<Rightarrow>
                           (case dependsOn of
                              Some (d # ds) \<Rightarrow> Inr (DEPENDS (d # ds))
                            | _ \<Rightarrow> Inr (if sat then YES else NO reason))))))"

section \<open>Store operations\<close>

definition set_dependency :: "heap \<Rightarrow> addr \<Rightarrow> PackageName \<Rightarrow> addr \<Rightarrow> heap" where
  "set_dependency h parent nm dep =
     h[parent := (h ! parent)\<lparr>dependencies := jm_set (dependencies (h ! parent)) nm dep\<rparr>]"

text \<open>\<^verbatim>\<open>decoupleGraphNode\<close>: the clone is the new object at the end of the store.\<close>

definition decoupleGraphNode :: "heap \<Rightarrow> addr \<Rightarrow> addr \<Rightarrow> heap \<times> addr" where
  "decoupleGraphNode h parent node =
     (if decoupled (h ! node) then (h, node)
      else
        let nd = h ! node;
            c = length h;
            clone0 = \<lparr>name = name nd, references = references nd, ident = ident nd,
                      locator = locator nd, dependencies = jm_copy (dependencies nd),
                      originalDependencies = jm_copy (originalDependencies nd),
                      hoistedDependencies = jm_copy (hoistedDependencies nd),
                      peerNames = peerNames nd, decoupled = True,
                      reasons = jm_copy (reasons nd)\<rparr>;
            clone =
              (case jm_get (dependencies clone0) (name nd) of
                 Some selfDep \<Rightarrow>
                   if ident (h ! selfDep) = ident clone0
                   then clone0\<lparr>dependencies := jm_set (dependencies clone0) (name nd) c\<rparr>
                   else clone0
               | None \<Rightarrow> clone0)
        in (set_dependency (h @ [clone]) parent (name clone) c, c))"

section \<open>\<^verbatim>\<open>getHoistedDependencies\<close>\<close>

fun addHoistedDependencies :: "nat \<Rightarrow> heap \<Rightarrow> addr \<Rightarrow> addr
    \<Rightarrow> addr list \<times> (PackageName, addr) jsmap \<Rightarrow> (addr list \<times> (PackageName, addr) jsmap) option" where
  "addHoistedDependencies 0 h rootNode node st = None"
| "addHoistedDependencies (Suc n) h rootNode node (seenNodes, hoistedDeps) =
     (if node \<in> set seenNodes then Some (seenNodes, hoistedDeps)
      else
        ofold
          (\<lambda>dep st.
             if name (h ! dep) \<notin> set (peerNames (h ! node))
             then addHoistedDependencies n h rootNode dep st
             else Some st)
          (jm_values (dependencies (h ! node)))
          (js_add seenNodes node,
           fold
             (\<lambda>dep m.
                if \<not> jm_has (dependencies (h ! rootNode)) (name (h ! dep))
                then jm_set m (name (h ! dep)) dep else m)
             (jm_values (hoistedDependencies (h ! node))) hoistedDeps))"

definition getHoistedDependencies :: "nat \<Rightarrow> heap \<Rightarrow> addr \<Rightarrow> (PackageName, addr) jsmap option" where
  "getHoistedDependencies n h rootNode =
     map_option snd (addHoistedDependencies n h rootNode rootNode ([], []))"

section \<open>Popularity: \<^verbatim>\<open>buildPopularityMap\<close>\<close>

definition getPopularityKey :: "HoisterWorkTree \<Rightarrow> string" where
  "getPopularityKey nd = name nd @ ''@'' @ ident nd"

fun addParent :: "nat \<Rightarrow> heap \<Rightarrow> addr \<Rightarrow> addr \<Rightarrow> addr list \<times> PopularityMap
    \<Rightarrow> (addr list \<times> PopularityMap) option" where
  "addParent 0 h parentNode node st = None"
| "addParent (Suc n) h parentNode node (seenNodes, popularityMap) =
     (let key = getPopularityKey (h ! node);
          parents = (case jm_get popularityMap key of None \<Rightarrow> [] | Some ps \<Rightarrow> ps);
          popularityMap1 = jm_set popularityMap key (js_add parents (ident (h ! parentNode)))
      in if node \<notin> set seenNodes then
           ofold
             (\<lambda>dep st.
                if name (h ! dep) \<notin> set (peerNames (h ! node))
                then addParent n h node dep st
                else Some st)
             (jm_values (dependencies (h ! node)))
             (js_add seenNodes node, popularityMap1)
         else Some (seenNodes, popularityMap1))"

definition buildPopularityMap :: "nat \<Rightarrow> heap \<Rightarrow> addr \<Rightarrow> PopularityMap option" where
  "buildPopularityMap n h rootNode =
     map_option snd
       (ofold
          (\<lambda>dep st.
             if name (h ! dep) \<notin> set (peerNames (h ! rootNode))
             then addParent n h rootNode dep st
             else Some st)
          (jm_values (dependencies (h ! rootNode)))
          ([rootNode], []))"

section \<open>\<^verbatim>\<open>selfCheck\<close>\<close>

definition newline :: string where
  "newline = [CHR 0x0A]"

definition prettyPrintTreePath :: "heap \<Rightarrow> addr list \<Rightarrow> addr \<Rightarrow> string" where
  "prettyPrintTreePath h parents node =
     join arrow (map (\<lambda>x. prettyPrintLocator (locator (h ! x))) (parents @ [node]))"

text \<open>
  One pass of the loop over \<^verbatim>\<open>node.originalDependencies.values()\<close>; \<open>deps\<close> is the
  local map \<^verbatim>\<open>dependencies\<close> and \<open>lg\<close> the log.
\<close>

definition check_origDep :: "heap \<Rightarrow> addr \<Rightarrow> addr list \<Rightarrow> (PackageName, addr) jsmap
    \<Rightarrow> (PackageName, addr) jsmap \<Rightarrow> addr \<Rightarrow> string list \<Rightarrow> string list comp" where
  "check_origDep h node parents parentDeps deps origDep lg =
     (let dep = jm_get deps (name (h ! origDep));
          path = prettyPrintTreePath h parents node
      in if name (h ! origDep) \<in> set (peerNames (h ! node)) then
           (let parentDep = jm_get parentDeps (name (h ! origDep))
            in if parentDep \<noteq> dep then
                 (case dep of
                    None \<Rightarrow> throw TypeError
                  | Some d \<Rightarrow>
                      ret (lg @ [path @ '' - broken peer promise: expected '' @ locator (h ! d)
                         @ '' but found ''
                         @ (case parentDep of Some pd \<Rightarrow> locator (h ! pd) | None \<Rightarrow> ''undefined'')]))
               else ret lg)
         else
           (case dep of
              None \<Rightarrow>
                ret (lg @ [path @ '' - broken require promise: no required dependency ''
                   @ locator (h ! origDep) @ '' found''])
            | Some d \<Rightarrow>
                if ident (h ! d) \<noteq> ident (h ! origDep) then
                  ret (lg @ [path @ '' - broken require promise for '' @ name (h ! origDep)
                     @ '': expected '' @ ident (h ! origDep) @ '', but found: '' @ ident (h ! d)])
                else ret lg))"

fun checkNode :: "nat \<Rightarrow> heap \<Rightarrow> addr \<Rightarrow> (PackageName, addr) jsmap
    \<Rightarrow> addr list \<times> addr list \<times> string list \<Rightarrow> (addr list \<times> addr list \<times> string list) comp" where
  "checkNode 0 h node parentDeps st = None"
| "checkNode (Suc n) h node parentDeps (seenNodes, parents, lg) =
     (if node \<in> set seenNodes then ret (seenNodes, parents, lg)
      else if node \<in> set parents then ret (js_add seenNodes node, parents, lg)
      else
        let deps =
              fold
                (\<lambda>dep m.
                   if name (h ! dep) \<notin> set (peerNames (h ! node))
                   then jm_set m (name (h ! dep)) dep else m)
                (jm_values (dependencies (h ! node))) (jm_copy parentDeps)
        in
          bnd (cfold (check_origDep h node parents parentDeps deps)
                 (jm_values (originalDependencies (h ! node))) lg)
            (\<lambda>lg1.
               bnd (cfold
                      (\<lambda>dep st.
                         if name (h ! dep) \<notin> set (peerNames (h ! node))
                         then checkNode n h dep deps st
                         else ret st)
                      (jm_values (dependencies (h ! node)))
                      (js_add seenNodes node, js_add parents node, lg1))
                 (\<lambda>(seenNodes2, parents2, lg2). ret (seenNodes2, js_delete parents2 node, lg2))))"

definition selfCheck :: "nat \<Rightarrow> heap \<Rightarrow> addr \<Rightarrow> string comp" where
  "selfCheck n h tree =
     bnd (checkNode n h tree (dependencies (h ! tree)) ([], [], []))
       (\<lambda>(seenNodes, parents, lg). ret (join newline lg))"

text \<open>
  \<^verbatim>\<open>if (checkLog) throw new Error(...)\<close>.  The error carries the log; the text after it
  (the place and the dump of the tree) is not modelled.
\<close>

definition throw_if_broken :: "string \<Rightarrow> unit comp" where
  "throw_if_broken checkLog = (if checkLog \<noteq> [] then throw (SelfCheckError checkLog) else ret ())"

section \<open>The executor: \<^verbatim>\<open>hoistGraph\<close>\<close>

text \<open>
  The first loop of \<^verbatim>\<open>hoistNodeDependencies\<close>: classify a dependency of the parent and
  record which names depend on which.  \<open>path\<close> is \<^verbatim>\<open>[...nodePath, parentNode]\<close>.
\<close>

definition collect_hoistInfo :: "heap \<Rightarrow> Locator list \<Rightarrow> addr list \<Rightarrow> (PackageName, addr) jsmap
    \<Rightarrow> (PackageName, Ident option) jsmap \<Rightarrow> (PackageName, Ident list) jsmap \<Rightarrow> bool \<Rightarrow> addr
    \<Rightarrow> (addr, HoistInfo) jsmap \<times> (PackageName, PackageName list) jsmap
    \<Rightarrow> ((addr, HoistInfo) jsmap \<times> (PackageName, PackageName list) jsmap) comp" where
  "collect_hoistInfo h rootNodePath path hoistedDeps hoistIdents hoistIdentMap outputReason
       subDependency st =
     (case st of (hoistInfos, dependantTree) \<Rightarrow>
        (case getNodeHoistInfo h rootNodePath path subDependency hoistedDeps hoistIdents
                hoistIdentMap outputReason of
           Inl e \<Rightarrow> throw e
         | Inr hoistInfo \<Rightarrow>
             ret (jm_set hoistInfos subDependency hoistInfo,
                  (case hoistInfo of
                     DEPENDS dependsOn \<Rightarrow>
                       fold
                         (\<lambda>node dt.
                            jm_set dt (name (h ! node))
                              (js_add (case jm_get dt (name (h ! node)) of None \<Rightarrow> [] | Some ds \<Rightarrow> ds)
                                 (name (h ! subDependency))))
                         dependsOn dependantTree
                   | _ \<Rightarrow> dependantTree))))"

text \<open>
  \<^verbatim>\<open>addUnhoistableNode\<close> threads \<open>(unhoistableNodes, hoistInfos)\<close>.  The dependant is
  looked up with a non-null assertion; were it absent, reading its name would throw.
\<close>

fun addUnhoistableNode :: "nat \<Rightarrow> heap \<Rightarrow> addr \<Rightarrow> (PackageName, PackageName list) jsmap
    \<Rightarrow> addr \<Rightarrow> HoistInfo \<Rightarrow> addr list \<times> (addr, HoistInfo) jsmap
    \<Rightarrow> (addr list \<times> (addr, HoistInfo) jsmap) comp" where
  "addUnhoistableNode 0 h parentNode dependantTree node hoistInfo st = None"
| "addUnhoistableNode (Suc n) h parentNode dependantTree node hoistInfo (unhoistableNodes, hoistInfos) =
     (if node \<notin> set unhoistableNodes then
        cfold
          (\<lambda>dependantName st.
             case jm_get (dependencies (h ! parentNode)) dependantName of
               None \<Rightarrow> throw TypeError
             | Some dependant \<Rightarrow> addUnhoistableNode n h parentNode dependantTree dependant hoistInfo st)
          (case jm_get dependantTree (name (h ! node)) of None \<Rightarrow> [] | Some ds \<Rightarrow> ds)
          (js_add unhoistableNodes node, jm_set hoistInfos node hoistInfo)
      else ret (unhoistableNodes, hoistInfos))"

text \<open>
  \<^verbatim>\<open>for (const [node, hoistInfo] of hoistInfos)\<close>: the body writes into \<open>hoistInfos\<close>,
  so the loop goes by position \<open>i\<close> over the map as it is when the position is reached.
\<close>

fun mark_unhoistable :: "nat \<Rightarrow> heap \<Rightarrow> addr \<Rightarrow> (PackageName, PackageName list) jsmap \<Rightarrow> nat
    \<Rightarrow> addr list \<times> (addr, HoistInfo) jsmap \<Rightarrow> (addr list \<times> (addr, HoistInfo) jsmap) comp" where
  "mark_unhoistable 0 h parentNode dependantTree i st = None"
| "mark_unhoistable (Suc n) h parentNode dependantTree i (unhoistableNodes, hoistInfos) =
     (if length hoistInfos \<le> i then ret (unhoistableNodes, hoistInfos)
      else
        (case hoistInfos ! i of
           Some (node, NO reason) \<Rightarrow>
             bnd (addUnhoistableNode n h parentNode dependantTree node (NO reason)
                    (unhoistableNodes, hoistInfos))
               (mark_unhoistable n h parentNode dependantTree (Suc i))
         | _ \<Rightarrow> mark_unhoistable n h parentNode dependantTree (Suc i) (unhoistableNodes, hoistInfos)))"

text \<open>
  The second loop, \<^verbatim>\<open>for (const node of hoistInfos.keys())\<close>: a node that is not
  unhoistable leaves its parent and is added to the root, or merged into the node the
  root holds under its name.  The state is the store and \<^verbatim>\<open>newNodes\<close>.
\<close>

definition hoist_node :: "addr \<Rightarrow> addr \<Rightarrow> addr list \<Rightarrow> addr \<Rightarrow> heap \<times> addr list \<Rightarrow> heap \<times> addr list" where
  "hoist_node rootNode parentNode unhoistableNodes node st =
     (case st of (h, newNodes) \<Rightarrow>
        if node \<notin> set unhoistableNodes then
          (let nm = name (h ! node);
               p = h ! parentNode;
               h1 = h[parentNode := p\<lparr>dependencies := jm_delete (dependencies p) nm,
                                       hoistedDependencies := jm_set (hoistedDependencies p) nm node,
                                       reasons := jm_delete (reasons p) nm\<rparr>]
           in case jm_get (dependencies (h1 ! rootNode)) nm of
                None \<Rightarrow>
                  if ident (h1 ! rootNode) \<noteq> ident (h1 ! node)
                  then (set_dependency h1 rootNode nm node, js_add newNodes node)
                  else (h1, newNodes)
              | Some hoistedNode \<Rightarrow>
                  (h1[hoistedNode := (h1 ! hoistedNode)
                        \<lparr>references := fold (\<lambda>reference rs. js_add rs reference)
                                         (references (h1 ! node)) (references (h1 ! hoistedNode))\<rparr>],
                   newNodes))
        else (h, newNodes))"

text \<open>
  \<open>hoistNodeDependencies\<close> threads the store, \<^verbatim>\<open>seenNodes\<close> and \<^verbatim>\<open>nextNewNodes\<close> (every
  call of the source passes that same set as \<^verbatim>\<open>newNodes\<close>).
\<close>

fun hoistNodeDependencies :: "nat \<Rightarrow> InternalHoistOptions \<Rightarrow> addr \<Rightarrow> addr \<Rightarrow> Locator list
    \<Rightarrow> (PackageName, addr) jsmap \<Rightarrow> (PackageName, Ident option) jsmap
    \<Rightarrow> (PackageName, Ident list) jsmap \<Rightarrow> addr list \<Rightarrow> Locator list \<Rightarrow> addr
    \<Rightarrow> heap \<times> addr list \<times> addr list \<Rightarrow> (heap \<times> addr list \<times> addr list) comp" where
  "hoistNodeDependencies 0 options tree rootNode rootNodePath hoistedDeps hoistIdents hoistIdentMap
       nodePath locatorPath parentNode st = None"
| "hoistNodeDependencies (Suc n) options tree rootNode rootNodePath hoistedDeps hoistIdents
       hoistIdentMap nodePath locatorPath parentNode (h, seenNodes, nextNewNodes) =
     (if parentNode \<in> set seenNodes then ret (h, seenNodes, nextNewNodes)
      else
        bnd (lift_option (getSortedRegularDependencies n h parentNode)) (\<lambda>sorted.
        bnd (cfold (collect_hoistInfo h rootNodePath (nodePath @ [parentNode]) hoistedDeps
                      hoistIdents hoistIdentMap (2 \<le> idebugLevel options))
               sorted ([], [])) (\<lambda>(hoistInfos0, dependantTree).
        bnd (mark_unhoistable n h parentNode dependantTree 0 ([], hoistInfos0))
          (\<lambda>(unhoistableNodes, hoistInfos).
        (case fold (hoist_node rootNode parentNode unhoistableNodes) (jm_keys hoistInfos)
                (h, nextNewNodes) of
           (h1, nextNewNodes1) \<Rightarrow>
        bnd (if icheck options then bnd (selfCheck n h1 tree) throw_if_broken else ret ()) (\<lambda>_.
        bnd (lift_option (getSortedRegularDependencies n h1 parentNode)) (\<lambda>children.
        cfold
          (\<lambda>node (h2, seenNodes2, nextNewNodes2).
             if node \<in> set unhoistableNodes \<and> locator (h2 ! node) \<notin> set locatorPath then
               (case jm_get hoistInfos node of
                  None \<Rightarrow> throw TypeError
                | Some hoistInfo \<Rightarrow>
                    (let h3 =
                           (case hoistInfo of
                              NO reason \<Rightarrow>
                                h2[parentNode := (h2 ! parentNode)
                                     \<lparr>reasons := jm_set (reasons (h2 ! parentNode))
                                                   (name (h2 ! node)) reason\<rparr>]
                            | _ \<Rightarrow> h2)
                     in case decoupleGraphNode h3 parentNode node of
                          (h4, decoupledNode) \<Rightarrow>
                            bnd (hoistNodeDependencies n options tree rootNode rootNodePath
                                   hoistedDeps hoistIdents hoistIdentMap (nodePath @ [parentNode])
                                   (locatorPath @ [locator (h4 ! parentNode)]) decoupledNode
                                   (h4, js_add seenNodes2 parentNode, nextNewNodes2))
                              (\<lambda>(h5, seenNodes5, nextNewNodes5).
                                 ret (h5, js_delete seenNodes5 parentNode, nextNewNodes5))))
             else ret (h2, seenNodes2, nextNewNodes2))
          children (h1, seenNodes, nextNewNodes1))))))))"

text \<open>The \<^verbatim>\<open>do ... while (nextNewNodes.size > 0)\<close> loop of \<^verbatim>\<open>hoistGraph\<close>.\<close>

fun hoistGraph_rounds :: "nat \<Rightarrow> InternalHoistOptions \<Rightarrow> addr \<Rightarrow> addr \<Rightarrow> Locator list
    \<Rightarrow> (PackageName, addr) jsmap \<Rightarrow> (PackageName, Ident option) jsmap
    \<Rightarrow> (PackageName, Ident list) jsmap \<Rightarrow> addr list \<Rightarrow> heap \<times> addr list
    \<Rightarrow> (heap \<times> addr list) comp" where
  "hoistGraph_rounds 0 options tree rootNode rootNodePath hoistedDeps hoistIdents hoistIdentMap
       newNodes st = None"
| "hoistGraph_rounds (Suc n) options tree rootNode rootNodePath hoistedDeps hoistIdents hoistIdentMap
       newNodes (h, seenNodes) =
     bnd (cfold
            (\<lambda>dep (h1, seenNodes1, nextNewNodes1).
               if locator (h1 ! dep) = locator (h1 ! rootNode) then ret (h1, seenNodes1, nextNewNodes1)
               else
                 (case decoupleGraphNode h1 rootNode dep of
                    (h2, decoupledDependency) \<Rightarrow>
                      hoistNodeDependencies n options tree rootNode rootNodePath hoistedDeps
                        hoistIdents hoistIdentMap [rootNode] [locator (h2 ! rootNode)]
                        decoupledDependency (h2, seenNodes1, nextNewNodes1)))
            newNodes (h, seenNodes, []))
       (\<lambda>(h', seenNodes', nextNewNodes).
          if nextNewNodes \<noteq> []
          then hoistGraph_rounds n options tree rootNode rootNodePath hoistedDeps hoistIdents
                 hoistIdentMap nextNewNodes (h', seenNodes')
          else ret (h', seenNodes'))"

definition hoistGraph :: "nat \<Rightarrow> InternalHoistOptions \<Rightarrow> addr \<Rightarrow> addr \<Rightarrow> Locator list
    \<Rightarrow> (PackageName, addr) jsmap \<Rightarrow> (PackageName, Ident option) jsmap
    \<Rightarrow> (PackageName, Ident list) jsmap \<Rightarrow> heap \<Rightarrow> heap comp" where
  "hoistGraph n options tree rootNode rootNodePath hoistedDeps hoistIdents hoistIdentMap h =
     bnd (lift_option (getSortedRegularDependencies n h rootNode)) (\<lambda>nextNewNodes.
     bnd (hoistGraph_rounds n options tree rootNode rootNodePath hoistedDeps hoistIdents
            hoistIdentMap nextNewNodes (h, []))
       (\<lambda>(h', seenNodes). ret h'))"

section \<open>The executor: \<^verbatim>\<open>hoistTo\<close>\<close>

definition first_ident :: "Ident list \<Rightarrow> Ident option" where
  "first_ident idents = (case idents of [] \<Rightarrow> None | i # _ \<Rightarrow> Some i)"

text \<open>
  \<^verbatim>\<open>new Map(Array.from(hoistIdentMap.entries()).map(([k, v]) => [k, v[0]]))\<close>; an absent
  \<^verbatim>\<open>v[0]\<close> is \<^verbatim>\<open>undefined\<close>, here \<open>None\<close>.
\<close>

definition initial_hoistIdents :: "(PackageName, Ident list) jsmap \<Rightarrow> (PackageName, Ident option) jsmap" where
  "initial_hoistIdents hoistIdentMap =
     map (\<lambda>(k, v). Some (k, first_ident v)) (jm_entries hoistIdentMap)"

text \<open>
  One pass of the loop over \<^verbatim>\<open>hoistIdentMap\<close> after \<^verbatim>\<open>hoistGraph\<close>: the state is
  \<open>(hoistIdents, hoistIdentMap, wasStateChanged)\<close>; \<^verbatim>\<open>idents.shift()\<close> changes the array
  the map holds under the name.
\<close>

definition next_candidate :: "heap \<Rightarrow> addr \<Rightarrow> PackageName \<times> Ident list
    \<Rightarrow> (PackageName, Ident option) jsmap \<times> (PackageName, Ident list) jsmap \<times> bool
    \<Rightarrow> (PackageName, Ident option) jsmap \<times> (PackageName, Ident list) jsmap \<times> bool" where
  "next_candidate h rootNode entry st =
     (case (entry, st) of ((nm, idents), (hoistIdents, hoistIdentMap, wasStateChanged)) \<Rightarrow>
        if 1 < length idents \<and> \<not> jm_has (dependencies (h ! rootNode)) nm
        then (jm_set (jm_delete hoistIdents nm) nm (first_ident (tl idents)),
              jm_set hoistIdentMap nm (tl idents), True)
        else (hoistIdents, hoistIdentMap, wasStateChanged))"

definition next_candidates :: "heap \<Rightarrow> addr
    \<Rightarrow> (PackageName, Ident option) jsmap \<times> (PackageName, Ident list) jsmap
    \<Rightarrow> (PackageName, Ident option) jsmap \<times> (PackageName, Ident list) jsmap \<times> bool" where
  "next_candidates h rootNode st =
     (case st of (hoistIdents, hoistIdentMap) \<Rightarrow>
        fold (next_candidate h rootNode) (jm_entries hoistIdentMap)
          (hoistIdents, hoistIdentMap, False))"

text \<open>The \<^verbatim>\<open>do ... while (wasStateChanged)\<close> loop.\<close>

fun hoistTo_rounds :: "nat \<Rightarrow> InternalHoistOptions \<Rightarrow> addr \<Rightarrow> addr \<Rightarrow> Locator list
    \<Rightarrow> (PackageName, addr) jsmap
    \<Rightarrow> heap \<times> (PackageName, Ident option) jsmap \<times> (PackageName, Ident list) jsmap
    \<Rightarrow> heap comp" where
  "hoistTo_rounds 0 options tree rootNode rootNodePath hoistedDeps st = None"
| "hoistTo_rounds (Suc n) options tree rootNode rootNodePath hoistedDeps
       (h, hoistIdents, hoistIdentMap) =
     bnd (hoistGraph n options tree rootNode rootNodePath hoistedDeps hoistIdents hoistIdentMap h)
       (\<lambda>h1.
          case next_candidates h1 rootNode (hoistIdents, hoistIdentMap) of
            (hoistIdents1, hoistIdentMap1, wasStateChanged) \<Rightarrow>
              if wasStateChanged
              then hoistTo_rounds n options tree rootNode rootNodePath hoistedDeps
                     (h1, hoistIdents1, hoistIdentMap1)
              else ret h1)"

text \<open>
  \<open>hoistTo\<close> threads the store and \<^verbatim>\<open>rootNodePath\<close>.  Its last loop,
  \<^verbatim>\<open>for (const dependency of rootNode.dependencies.values())\<close>, runs while the calls in
  its body change the store, so \<open>hoistTo_dependencies\<close> goes by position \<open>i\<close> over
  the map of the root as the store holds it when the position is reached.  The
  recursive call of the source passes no \<^verbatim>\<open>seenNodes\<close>: the callee starts from the
  default, an empty set.
\<close>

fun hoistTo :: "nat \<Rightarrow> InternalHoistOptions \<Rightarrow> addr \<Rightarrow> addr \<Rightarrow> addr list
      \<Rightarrow> heap \<times> Locator list \<Rightarrow> (heap \<times> Locator list) comp"
  and hoistTo_dependencies :: "nat \<Rightarrow> InternalHoistOptions \<Rightarrow> addr \<Rightarrow> addr \<Rightarrow> nat
      \<Rightarrow> heap \<times> Locator list \<Rightarrow> (heap \<times> Locator list) comp" where
  "hoistTo 0 options tree rootNode seenNodes st = None"
| "hoistTo (Suc n) options tree rootNode seenNodes (h, rootNodePath) =
     (if rootNode \<in> set seenNodes then ret (h, rootNodePath)
      else
        bnd (lift_option (buildPopularityMap n h rootNode)) (\<lambda>popularityMap.
        bnd (if rootNode = tree then ret [] else lift_option (getHoistedDependencies n h rootNode))
          (\<lambda>hoistedDeps.
        bnd (hoistTo_rounds n options tree rootNode rootNodePath hoistedDeps
               (h, initial_hoistIdents (getHoistIdentMap h rootNode popularityMap),
                getHoistIdentMap h rootNode popularityMap))
          (\<lambda>h1. hoistTo_dependencies n options tree rootNode 0 (h1, rootNodePath)))))"
| "hoistTo_dependencies 0 options tree rootNode i st = None"
| "hoistTo_dependencies (Suc n) options tree rootNode i (h, rootNodePath) =
     (if length (dependencies (h ! rootNode)) \<le> i then ret (h, rootNodePath)
      else
        (case dependencies (h ! rootNode) ! i of
           None \<Rightarrow> hoistTo_dependencies n options tree rootNode (Suc i) (h, rootNodePath)
         | Some (k, dependency) \<Rightarrow>
             if name (h ! dependency) \<notin> set (peerNames (h ! rootNode))
                \<and> locator (h ! dependency) \<notin> set rootNodePath
             then
               bnd (hoistTo n options tree dependency []
                      (h, js_add rootNodePath (locator (h ! dependency))))
                 (\<lambda>(h1, rootNodePath1).
                    hoistTo_dependencies n options tree rootNode (Suc i)
                      (h1, js_delete rootNodePath1 (locator (h1 ! dependency))))
             else hoistTo_dependencies n options tree rootNode (Suc i) (h, rootNodePath)))"

section \<open>The importer: \<^verbatim>\<open>cloneTree\<close>\<close>

definition new_workNode :: "HoisterTree \<Rightarrow> HoisterWorkTree" where
  "new_workNode t =
     \<lparr>name = name_in t, references = [reference_in t],
      ident = makeIdent (identName_in t) (reference_in t),
      locator = makeLocator (identName_in t) (reference_in t),
      dependencies = [], originalDependencies = [], hoistedDependencies = [],
      peerNames = peerNames_in t, decoupled = True, reasons = []\<rparr>"

fun markNodeCoupled :: "nat \<Rightarrow> addr \<Rightarrow> heap \<times> addr list \<Rightarrow> (heap \<times> addr list) option" where
  "markNodeCoupled 0 node st = None"
| "markNodeCoupled (Suc n) node (h, seenCoupledNodes) =
     (if node \<in> set seenCoupledNodes then Some (h, seenCoupledNodes)
      else
        ofold
          (\<lambda>dep (h1, seen1).
             if name (h1 ! dep) \<notin> set (peerNames (h1 ! node))
             then markNodeCoupled n dep (h1, seen1)
             else Some (h1, seen1))
          (jm_values (dependencies (h ! node)))
          (h[node := (h ! node)\<lparr>decoupled := False\<rparr>], js_add seenCoupledNodes node))"

text \<open>
  \<open>addNode\<close> threads the store \<open>g\<close> of the input nodes, the store \<open>h\<close> of the work
  nodes and \<^verbatim>\<open>seenNodes\<close>, the map from input nodes to work nodes.  The source reads the
  input nodes here and nowhere else.
\<close>

fun addNode :: "nat \<Rightarrow> addr \<Rightarrow> addr \<Rightarrow> HoisterTree list \<times> heap \<times> (addr, addr) jsmap
    \<Rightarrow> (HoisterTree list \<times> heap \<times> (addr, addr) jsmap) option" where
  "addNode 0 node parentNode st = None"
| "addNode (Suc n) node parentNode (g, h, seenNodes) =
     (case jm_get seenNodes node of
        Some workNode \<Rightarrow>
          (let h1 = h[parentNode := (h ! parentNode)
                       \<lparr>dependencies := jm_set (dependencies (h ! parentNode)) (name_in (g ! node)) workNode,
                        originalDependencies :=
                          jm_set (originalDependencies (h ! parentNode)) (name_in (g ! node)) workNode\<rparr>]
           in map_option (\<lambda>(h2, seenCoupledNodes). (g, h2, seenNodes))
                (markNodeCoupled n workNode (h1, [])))
      | None \<Rightarrow>
          (let workNode = length h;
               h0 = h @ [new_workNode (g ! node)];
               h1 = h0[parentNode := (h0 ! parentNode)
                       \<lparr>dependencies := jm_set (dependencies (h0 ! parentNode)) (name_in (g ! node)) workNode,
                        originalDependencies :=
                          jm_set (originalDependencies (h0 ! parentNode)) (name_in (g ! node)) workNode\<rparr>]
           in ofold (\<lambda>dep st. addNode n dep workNode st) (dependencies_in (g ! node))
                (g, h1, jm_set seenNodes node workNode)))"

text \<open>
  \<open>cloneTree\<close> returns the store of the input nodes as it leaves it, the store of the
  work nodes and the work node of the root.
\<close>

definition cloneTree :: "nat \<Rightarrow> HoisterTree list \<Rightarrow> addr \<Rightarrow> (HoisterTree list \<times> heap \<times> addr) option" where
  "cloneTree n g tree =
     map_option (\<lambda>(g', h, seenNodes). (g', h, 0))
       (ofold (\<lambda>dep st. addNode n dep 0 st) (dependencies_in (g ! tree))
          (g, [new_workNode (g ! tree)], [Some (tree, 0)]))"

section \<open>The exporter: \<^verbatim>\<open>shrinkTree\<close>\<close>

definition getIdentName :: "Locator \<Rightarrow> string" where
  "getIdentName loc = substring_to loc (indexOf loc CHR ''@'' 1)"

definition add_result_dependency :: "HoisterResult list \<Rightarrow> addr \<Rightarrow> addr \<Rightarrow> HoisterResult list" where
  "add_result_dependency out parentNode resultNode =
     out[parentNode := (out ! parentNode)
           \<lparr>dependencies_out := js_add (dependencies_out (out ! parentNode)) resultNode\<rparr>]"

text \<open>
  \<open>addResultNode\<close> is \<^verbatim>\<open>addNode\<close> of \<^verbatim>\<open>shrinkTree\<close>; it threads the store of output
  nodes and \<^verbatim>\<open>seenNodes\<close>.
\<close>

fun addResultNode :: "nat \<Rightarrow> heap \<Rightarrow> addr \<Rightarrow> addr \<Rightarrow> addr \<Rightarrow> HoisterResult list \<times> addr list
    \<Rightarrow> (HoisterResult list \<times> addr list) option" where
  "addResultNode 0 h node parentWorkNode parentNode st = None"
| "addResultNode (Suc n) h node parentWorkNode parentNode (out, seenNodes) =
     (let isSeen = (node \<in> set seenNodes);
          resultNode = (if parentWorkNode = node then parentNode else length out);
          out1 =
            (if parentWorkNode = node then out
             else out @ [\<lparr>name_out = name (h ! node),
                          identName_out = getIdentName (locator (h ! node)),
                          references_out = references (h ! node),
                          dependencies_out = []\<rparr>]);
          out2 = add_result_dependency out1 parentNode resultNode
      in if \<not> isSeen then
           map_option (\<lambda>(out3, seenNodes3). (out3, js_delete seenNodes3 node))
             (ofold
                (\<lambda>dep st.
                   if name (h ! dep) \<notin> set (peerNames (h ! node))
                   then addResultNode n h dep node resultNode st
                   else Some st)
                (jm_values (dependencies (h ! node)))
                (out2, js_add seenNodes node))
         else Some (out2, seenNodes))"

text \<open>The root of the output is the output node 0.\<close>

definition shrinkTree :: "nat \<Rightarrow> heap \<Rightarrow> addr \<Rightarrow> HoisterResult list option" where
  "shrinkTree n h tree =
     map_option fst
       (ofold (\<lambda>dep st. addResultNode n h dep tree 0 st)
          (jm_values (dependencies (h ! tree)))
          ([\<lparr>name_out = name (h ! tree),
             identName_out = getIdentName (locator (h ! tree)),
             references_out = references (h ! tree),
             dependencies_out = []\<rparr>],
           [tree]))"

section \<open>\<^verbatim>\<open>hoist\<close>\<close>

text \<open>
  \<open>g\<close> and \<open>tree\<close> are the store of the input nodes and the root among them, \<open>env\<close>
  and \<open>num\<close> the environment variable and \<^verbatim>\<open>Number\<close> (see the options), \<open>n\<close> the bound
  on the depth of recursion.  The result is the store of the input nodes after the
  call and the store of the output nodes, whose node 0 is the root.
\<close>

definition hoist :: "nat \<Rightarrow> (string \<Rightarrow> int) \<Rightarrow> string option \<Rightarrow> HoisterTree list \<Rightarrow> addr
    \<Rightarrow> HoistOptions \<Rightarrow> (HoisterTree list \<times> HoisterResult list) comp" where
  "hoist n num env g tree opts =
     (let options = internal_options num opts env
      in bnd (lift_option (cloneTree n g tree)) (\<lambda>(g', h0, treeCopy).
         bnd (hoistTo n options treeCopy treeCopy [] (h0, [locator (h0 ! treeCopy)])) (\<lambda>(h1, rootNodePath).
         bnd (if 1 \<le> idebugLevel options then bnd (selfCheck n h1 treeCopy) throw_if_broken else ret ())
           (\<lambda>_. bnd (lift_option (shrinkTree n h1 treeCopy)) (\<lambda>out. ret (g', out))))))"

section \<open>Inputs of the scenarios\<close>

definition input_node :: "string \<Rightarrow> string \<Rightarrow> string \<Rightarrow> addr list \<Rightarrow> string list \<Rightarrow> HoisterTree" where
  "input_node nm idn r deps peers =
     \<lparr>name_in = nm, identName_in = idn, reference_in = r, dependencies_in = deps,
      peerNames_in = peers\<rparr>"

definition no_options :: HoistOptions where
  "no_options = \<lparr>check = None, debugLevel = None\<rparr>"

text \<open>
  The cyclic peer pair: the root \<^verbatim>\<open>.\<close> depends on \<^verbatim>\<open>a@1\<close> and \<^verbatim>\<open>b@1\<close>; \<^verbatim>\<open>a@1\<close> lists
  \<^verbatim>\<open>b@1\<close> as a dependency and \<^verbatim>\<open>b\<close> as a peer name, and \<^verbatim>\<open>b@1\<close> the same with \<^verbatim>\<open>a\<close>.
\<close>

definition cyclic_peers :: "HoisterTree list" where
  "cyclic_peers =
     [input_node ''.'' ''.'' ''workspace:.'' [1, 2] [],
      input_node ''a'' ''a'' ''1'' [2] [''b''],
      input_node ''b'' ''b'' ''1'' [1] [''a'']]"

text \<open>The root depends on \<^verbatim>\<open>x@1\<close> and on \<^verbatim>\<open>c@1\<close>, which depends on \<^verbatim>\<open>x@2\<close>.\<close>

definition two_versions :: "HoisterTree list" where
  "two_versions =
     [input_node ''.'' ''.'' ''workspace:.'' [1, 2] [],
      input_node ''x'' ''x'' ''1'' [] [],
      input_node ''c'' ''c'' ''1'' [3] [],
      input_node ''x'' ''x'' ''2'' [] []]"

text \<open>Its output: \<^verbatim>\<open>x@1\<close> and \<^verbatim>\<open>c@1\<close> under the root, \<^verbatim>\<open>x@2\<close> under \<^verbatim>\<open>c@1\<close>.\<close>

definition two_versions_out :: "HoisterResult list" where
  "two_versions_out =
     [\<lparr>name_out = ''.'', identName_out = ''.'', references_out = [''workspace:.''],
        dependencies_out = [1, 2]\<rparr>,
      \<lparr>name_out = ''x'', identName_out = ''x'', references_out = [''1''],
        dependencies_out = []\<rparr>,
      \<lparr>name_out = ''c'', identName_out = ''c'', references_out = [''1''],
        dependencies_out = [3]\<rparr>,
      \<lparr>name_out = ''x'', identName_out = ''x'', references_out = [''2''],
        dependencies_out = []\<rparr>]"

text \<open>The root depends on \<^verbatim>\<open>a@1\<close>, which depends on the root.\<close>

definition root_cycle :: "HoisterTree list" where
  "root_cycle =
     [input_node ''.'' ''.'' ''workspace:.'' [1] [],
      input_node ''a'' ''a'' ''1'' [0] []]"

section \<open>Resolution of a name\<close>

text \<open>
  What a node sees under a name: \<open>path\<close> runs from the root of the work tree to the
  node; the nearest node on it that holds a dependency of that name answers.
\<close>

definition resolve :: "heap \<Rightarrow> addr list \<Rightarrow> PackageName \<Rightarrow> addr option" where
  "resolve h path nm =
     (case List.map_filter (\<lambda>a. jm_get (dependencies (h ! a)) nm) (rev path) of
        [] \<Rightarrow> None
      | d # _ \<Rightarrow> Some d)"

text \<open>
  The root depends on \<^verbatim>\<open>a@1\<close>; \<^verbatim>\<open>a@1\<close> depends on \<^verbatim>\<open>a@2\<close> under the name \<^verbatim>\<open>a\<close>, which is
  its peer name, and on \<^verbatim>\<open>b@1\<close>, which depends on \<^verbatim>\<open>a@1\<close>.
\<close>

definition self_peer :: "HoisterTree list" where
  "self_peer =
     [input_node ''.'' ''.'' ''workspace:.'' [1] [],
      input_node ''a'' ''a'' ''1'' [2, 3] [''a''],
      input_node ''a'' ''a'' ''2'' [] [],
      input_node ''b'' ''b'' ''1'' [1] []]"

text \<open>The work tree \<^verbatim>\<open>cloneTree\<close> builds from an input graph with root 0.\<close>

definition work_tree :: "HoisterTree list \<Rightarrow> heap" where
  "work_tree g = (case cloneTree (2 * length g + 2) g 0 of Some (g', h, tree) \<Rightarrow> h | None \<Rightarrow> [])"

text \<open>The root depends on \<^verbatim>\<open>plugin@1\<close>, which has the peer \<^verbatim>\<open>host\<close>, and on \<^verbatim>\<open>host@1\<close>.\<close>

definition plugin_host :: "HoisterTree list" where
  "plugin_host =
     [input_node ''.'' ''.'' ''workspace:.'' [1, 2] [],
      input_node ''plugin'' ''plugin'' ''1'' [2] [''host''],
      input_node ''host'' ''host'' ''1'' [] []]"

text \<open>Its output: both under the root.\<close>

definition plugin_host_out :: "HoisterResult list" where
  "plugin_host_out =
     [\<lparr>name_out = ''.'', identName_out = ''.'', references_out = [''workspace:.''],
        dependencies_out = [1, 2]\<rparr>,
      \<lparr>name_out = ''plugin'', identName_out = ''plugin'', references_out = [''1''],
        dependencies_out = []\<rparr>,
      \<lparr>name_out = ''host'', identName_out = ''host'', references_out = [''1''],
        dependencies_out = []\<rparr>]"

text \<open>The output of the cyclic peer pair: \<^verbatim>\<open>a@1\<close> and \<^verbatim>\<open>b@1\<close> under the root.\<close>

definition cyclic_peers_out :: "HoisterResult list" where
  "cyclic_peers_out =
     [\<lparr>name_out = ''.'', identName_out = ''.'', references_out = [''workspace:.''],
        dependencies_out = [1, 2]\<rparr>,
      \<lparr>name_out = ''a'', identName_out = ''a'', references_out = [''1''],
        dependencies_out = []\<rparr>,
      \<lparr>name_out = ''b'', identName_out = ''b'', references_out = [''1''],
        dependencies_out = []\<rparr>]"

text \<open>
  The cyclic peer pair under a common parent: the root depends on \<^verbatim>\<open>w@1\<close>, which depends
  on \<^verbatim>\<open>a@1\<close> and \<^verbatim>\<open>b@1\<close>; these are as in \<open>cyclic_peers\<close>.  In the output all three are
  under the root.
\<close>

definition nested_peers :: "HoisterTree list" where
  "nested_peers =
     [input_node ''.'' ''.'' ''workspace:.'' [1] [],
      input_node ''w'' ''w'' ''1'' [2, 3] [],
      input_node ''a'' ''a'' ''1'' [3] [''b''],
      input_node ''b'' ''b'' ''1'' [2] [''a'']]"

definition nested_peers_out :: "HoisterResult list" where
  "nested_peers_out =
     [\<lparr>name_out = ''.'', identName_out = ''.'', references_out = [''workspace:.''],
        dependencies_out = [1, 2, 3]\<rparr>,
      \<lparr>name_out = ''w'', identName_out = ''w'', references_out = [''1''],
        dependencies_out = []\<rparr>,
      \<lparr>name_out = ''b'', identName_out = ''b'', references_out = [''1''],
        dependencies_out = []\<rparr>,
      \<lparr>name_out = ''a'', identName_out = ''a'', references_out = [''1''],
        dependencies_out = []\<rparr>]"

text \<open>
  The root has the peer name \<^verbatim>\<open>b\<close> and depends on \<^verbatim>\<open>a@1\<close>, which depends on \<^verbatim>\<open>b@1\<close> and
  \<^verbatim>\<open>c@1\<close>.
\<close>

definition peer_root :: "HoisterTree list" where
  "peer_root =
     [input_node ''.'' ''.'' ''workspace:.'' [1] [''b''],
      input_node ''a'' ''a'' ''1'' [2, 3] [],
      input_node ''b'' ''b'' ''1'' [] [],
      input_node ''c'' ''c'' ''1'' [] []]"

section \<open>What a run classifies and hoists\<close>

text \<open>
  \<open>classify\<close>: the first steps of \<^verbatim>\<open>hoistNodeDependencies\<close> for a dependency
  \<open>parentNode\<close> of the root \<open>tree\<close>, in the first round of hoisting to the root with
  the default options: the dependencies of \<open>parentNode\<close> it sorts, the classification
  \<^verbatim>\<open>getNodeHoistInfo\<close> gives them, and the nodes marked unhoistable.

  \<open>hoisted_records\<close>: the \<^verbatim>\<open>hoistedDependencies\<close> of every node of the store after
  \<^verbatim>\<open>hoistTo\<close>; the code puts every node it hoists there, under its parent.
\<close>

definition classify :: "nat \<Rightarrow> heap \<Rightarrow> addr \<Rightarrow> addr
    \<Rightarrow> (addr list \<times> (addr, HoistInfo) jsmap \<times> addr list) comp" where
  "classify n h tree parentNode =
     bnd (lift_option (buildPopularityMap n h tree)) (\<lambda>popularityMap.
     bnd (lift_option (getSortedRegularDependencies n h parentNode)) (\<lambda>sorted.
     bnd (cfold (collect_hoistInfo h [locator (h ! tree)] [tree, parentNode] []
                   (initial_hoistIdents (getHoistIdentMap h tree popularityMap))
                   (getHoistIdentMap h tree popularityMap) False)
            sorted ([], [])) (\<lambda>(hoistInfos0, dependantTree).
     bnd (mark_unhoistable n h parentNode dependantTree 0 ([], hoistInfos0))
       (\<lambda>(unhoistableNodes, hoistInfos). ret (sorted, hoistInfos0, unhoistableNodes)))))"

definition hoisted_records :: "(heap \<times> Locator list) comp \<Rightarrow> (PackageName \<times> addr) list list option" where
  "hoisted_records r =
     (case r of Some (Inr (h, rootNodePath)) \<Rightarrow> Some (map (\<lambda>nd. jm_entries (hoistedDependencies nd)) h)
      | _ \<Rightarrow> None)"

section \<open>Notions for the dependency ordering\<close>

text \<open>
  \<open>regular_dependencies\<close>: the direct dependencies of \<open>N\<close> that are not peers.
  \<open>keys_are_names\<close>: the map of \<open>N\<close> holds every dependency under its name (a
  \<^verbatim>\<open>Map\<close> has no key twice).  \<open>peers_first\<close> is the ordering as the specification
  words it; \<open>sibling_peer h ds D P\<close> says that \<open>D\<close> has the name of \<open>P\<close> as a peer name,
  both being in \<open>ds\<close>.  \<open>peer_edge\<close> is the step \<^verbatim>\<open>addDep\<close> follows, from a dependency to
  the node that \<open>nd\<close> holds under one of its peer names; \<open>peers_before\<close> and
  \<open>addDep_inv\<close> are the invariants of \<^verbatim>\<open>addDep\<close>.
\<close>

definition peer_edge :: "heap \<Rightarrow> HoisterWorkTree \<Rightarrow> addr \<Rightarrow> addr \<Rightarrow> bool" where
  "peer_edge h nd D P =
     (\<exists>p \<in> set (peerNames (h ! D)). p \<notin> set (peerNames nd) \<and> jm_get (dependencies nd) p = Some P)"

definition peers_before :: "heap \<Rightarrow> HoisterWorkTree \<Rightarrow> addr list \<Rightarrow> bool" where
  "peers_before h nd ds =
     (\<forall>x \<in> set ds. \<forall>P. peer_edge h nd x P \<longrightarrow>
        P \<in> set (takeWhile (\<lambda>y. y \<noteq> x) ds) \<or> P = x \<or> (peer_edge h nd)\<^sup>*\<^sup>* P x)"

definition regular_dependencies :: "heap \<Rightarrow> addr \<Rightarrow> addr set" where
  "regular_dependencies h N =
     {a \<in> set (jm_values (dependencies (h ! N))). name (h ! a) \<notin> set (peerNames (h ! N))}"

definition keys_are_names :: "heap \<Rightarrow> addr \<Rightarrow> bool" where
  "keys_are_names h N =
     (distinct (jm_keys (dependencies (h ! N)))
      \<and> (\<forall>(k, a) \<in> set (jm_entries (dependencies (h ! N))). name (h ! a) = k))"

definition sibling_peer :: "heap \<Rightarrow> addr list \<Rightarrow> addr \<Rightarrow> addr \<Rightarrow> bool" where
  "sibling_peer h ds D P =
     (D \<in> set ds \<and> P \<in> set ds \<and> name (h ! P) \<in> set (peerNames (h ! D)))"

definition peers_first :: "heap \<Rightarrow> addr list \<Rightarrow> bool" where
  "peers_first h ds =
     (\<forall>i < length ds. \<forall>j < length ds.
        i \<noteq> j \<and> name (h ! (ds ! j)) \<in> set (peerNames (h ! (ds ! i))) \<longrightarrow> j < i)"

definition addDep_inv :: "heap \<Rightarrow> HoisterWorkTree \<Rightarrow> addr set \<Rightarrow> addr set \<Rightarrow> addr list
    \<Rightarrow> addr list \<Rightarrow> addr list \<Rightarrow> bool" where
  "addDep_inv h nd A S deps s d =
     (S \<subseteq> set s \<and> set s \<subseteq> S \<union> A \<and> (\<exists>new. d = deps @ new \<and> set new \<subseteq> A)
      \<and> set s - set d \<subseteq> S - set deps \<and> peers_before h nd d \<and> distinct d)"

section \<open>Notions for the shape of the work tree and of the output\<close>

text \<open>
  \<open>wf_node\<close>: the \<^verbatim>\<open>dependencies\<close> map of a work node has one live entry per key, and
  every entry holds an allocated node under that node's name.  \<open>wf_heap\<close>: every node of
  the store is so.  \<open>ext h h'\<close>: the store \<open>h'\<close> has every node of \<open>h\<close>, under the same
  name (\<^verbatim>\<open>name\<close> is never assigned after a node is built).
\<close>

definition wf_node :: "heap \<Rightarrow> HoisterWorkTree \<Rightarrow> bool" where
  "wf_node h nd =
     (distinct (jm_keys (dependencies nd))
      \<and> (\<forall>(k, b) \<in> set (jm_entries (dependencies nd)). b < length h \<and> name (h ! b) = k))"

definition wf_heap :: "heap \<Rightarrow> bool" where
  "wf_heap h = (\<forall>a < length h. wf_node h (h ! a))"

definition ext :: "heap \<Rightarrow> heap \<Rightarrow> bool" where
  "ext h h' = (length h \<le> length h' \<and> (\<forall>a < length h. name (h' ! a) = name (h ! a)))"

text \<open>
  The state of \<^verbatim>\<open>hoistNodeDependencies\<close>: the store, the nodes seen and the nodes of the
  next round, relative to the store \<open>h0\<close> the pass started from.
\<close>

definition state_ok :: "heap \<Rightarrow> heap \<times> addr list \<times> addr list \<Rightarrow> bool" where
  "state_ok h0 st = (case st of (h, seenNodes, nextNewNodes) \<Rightarrow>
     wf_heap h \<and> ext h0 h \<and> (\<forall>a \<in> set nextNewNodes. a < length h))"

text \<open>
  The \<^verbatim>\<open>seenNodes\<close> map of \<^verbatim>\<open>cloneTree\<close> sends an input node to a work node of its name.
\<close>

definition seen_ok :: "HoisterTree list \<Rightarrow> heap \<Rightarrow> (addr, addr) jsmap \<Rightarrow> bool" where
  "seen_ok g h seenNodes =
     (\<forall>(i, w) \<in> set (jm_entries seenNodes). w < length h \<and> name (h ! w) = name_in (g ! i))"

text \<open>
  \<open>good out r\<close>: the children of the output node \<open>r\<close> are allocated and no two distinct
  ones have the same name.  \<open>child_added\<close> is what one call of \<^verbatim>\<open>addResultNode\<close> does to
  the output store, \<open>loop_done\<close> what the loop over the dependencies of a work node does,
  and \<open>loop_step_ok\<close> what the loop asks of its body.
\<close>

definition good :: "HoisterResult list \<Rightarrow> addr \<Rightarrow> bool" where
  "good out r =
     ((\<forall>c \<in> set (dependencies_out (out ! r)). c < length out)
      \<and> (\<forall>c1 \<in> set (dependencies_out (out ! r)). \<forall>c2 \<in> set (dependencies_out (out ! r)).
            c1 \<noteq> c2 \<longrightarrow> name_out (out ! c1) \<noteq> name_out (out ! c2)))"

definition child_added :: "HoisterResult list \<Rightarrow> HoisterResult list \<Rightarrow> addr \<Rightarrow> PackageName \<Rightarrow> bool" where
  "child_added out out' pr nm =
     (length out \<le> length out'
      \<and> (\<forall>r < length out. r \<noteq> pr \<longrightarrow> out' ! r = out ! r)
      \<and> name_out (out' ! pr) = name_out (out ! pr)
      \<and> (\<exists>c. c < length out' \<and> (c = pr \<or> length out \<le> c) \<and> name_out (out' ! c) = nm
             \<and> dependencies_out (out' ! pr) = js_add (dependencies_out (out ! pr)) c)
      \<and> (\<forall>r. length out \<le> r \<and> r < length out' \<longrightarrow> good out' r))"

definition loop_done :: "HoisterResult list \<Rightarrow> HoisterResult list \<Rightarrow> addr \<Rightarrow> bool" where
  "loop_done out out' c =
     (length out \<le> length out'
      \<and> (\<forall>r < length out. r \<noteq> c \<longrightarrow> out' ! r = out ! r)
      \<and> name_out (out' ! c) = name_out (out ! c)
      \<and> good out' c
      \<and> (\<forall>r. length out \<le> r \<and> r < length out' \<longrightarrow> good out' r))"

definition loop_step_ok :: "heap \<Rightarrow> (addr \<Rightarrow> HoisterResult list \<times> addr list
    \<Rightarrow> (HoisterResult list \<times> addr list) option) \<Rightarrow> addr list \<Rightarrow> addr \<Rightarrow> addr \<Rightarrow> bool" where
  "loop_step_ok h F ds c node =
     (\<forall>d out seen out' seen'. d \<in> set ds \<longrightarrow> F d (out, seen) = Some (out', seen')
        \<longrightarrow> c < length out \<longrightarrow> node \<in> set seen \<longrightarrow> name_out (out ! c) = name (h ! node)
        \<longrightarrow> (out' = out \<and> seen' = seen)
            \<or> (child_added out out' c (name (h ! d)) \<and> set seen' = set seen))"

section \<open>Bounds on the depth of recursion\<close>

text \<open>
  \<open>le_opt a b\<close>: the computation \<open>a\<close> is cut short by its bound, or it has the result
  of \<open>b\<close>.
\<close>

definition le_opt :: "'a option \<Rightarrow> 'a option \<Rightarrow> bool" where
  "le_opt a b = (a = None \<or> a = b)"

section \<open>Notions for the peer names of the hoist root\<close>

text \<open>
  \<open>static h h'\<close>: the store \<open>h'\<close> has every node of \<open>h\<close>, with its name, ident and peer
  names.  \<open>peer_safe p R h h'\<close>: moreover what \<open>R\<close> holds under the name \<open>p\<close> in \<open>h'\<close>
  it held in \<open>h\<close>, and, unless \<open>p\<close> is the name of \<open>R\<close>, every record of a hoisted node
  under \<open>p\<close> in \<open>h'\<close> is a record of \<open>h\<close>.  \<open>candidate\<close>: \<^verbatim>\<open>hoistIdents\<close> holds the ident
  of the node under its name.
\<close>

definition static :: "heap \<Rightarrow> heap \<Rightarrow> bool" where
  "static h h' =
     (length h \<le> length h'
      \<and> (\<forall>a < length h. name (h' ! a) = name (h ! a) \<and> ident (h' ! a) = ident (h ! a)
            \<and> peerNames (h' ! a) = peerNames (h ! a)))"

definition peer_safe :: "PackageName \<Rightarrow> addr \<Rightarrow> heap \<Rightarrow> heap \<Rightarrow> bool" where
  "peer_safe p R h h' =
     (static h h'
      \<and> (\<forall>x. jm_get (dependencies (h' ! R)) p = Some x \<longrightarrow> jm_get (dependencies (h ! R)) p = Some x)
      \<and> (p \<noteq> name (h ! R) \<longrightarrow>
           (\<forall>a < length h'. \<forall>x. jm_get (hoistedDependencies (h' ! a)) p = Some x \<longrightarrow>
              (\<exists>b < length h. jm_get (hoistedDependencies (h ! b)) p = Some x))))"

definition candidate :: "heap \<Rightarrow> (PackageName, Ident option) jsmap \<Rightarrow> addr \<Rightarrow> bool" where
  "candidate h hoistIdents node =
     (jm_get hoistIdents (name (h ! node)) = Some (Some (ident (h ! node))))"

section \<open>Maps\<close>

lemma jm_entries_simps [simp]:
  "jm_entries [] = []"
  "jm_entries (None # m) = jm_entries m"
  "jm_entries (Some e # m) = e # jm_entries m"
  by (simp_all add: jm_entries_def)

lemma jm_get_set: "jm_get (jm_set m k v) k' = (if k' = k then Some v else jm_get m k')"
  by (induction m k v rule: jm_set.induct) (auto simp: jm_get_def)

lemma jm_get_delete_other: "k' \<noteq> k \<Longrightarrow> jm_get (jm_delete m k) k' = jm_get m k'"
  by (induction m k rule: jm_delete.induct) (auto simp: jm_get_def)

section \<open>Debug level\<close>

text \<open>
  C5.  The claim: the effective debug level is \<^verbatim>\<open>opts.debugLevel\<close> whenever the caller
  gives one, the value 0 included, and comes from the environment only when the option
  is absent.  The code at \<^verbatim>\<open>debugLevel: 0\<close> with \<^verbatim>\<open>NM_DEBUG_LEVEL\<close> unset: the level is
  -1 and no timing is printed, since \<^verbatim>\<open>0 || x\<close> is \<^verbatim>\<open>x\<close>.
\<close>

theorem debugLevel_zero_ignored:
  "effective_debugLevel num \<lparr>check = c, debugLevel = Some 0\<rparr> None = - 1
   \<and> \<not> timing_output (internal_options num \<lparr>check = c, debugLevel = Some 0\<rparr> None)"
  by (simp add: effective_debugLevel_def env_debugLevel_def internal_options_def
      timing_output_def Let_def)

section \<open>Candidate lists\<close>

text \<open>
  C4.  The claim: the name of every direct dependency of the root that is not a peer
  is mapped to the one-element list of that dependency's ident.  The code on the work
  tree of \<open>two_versions\<close>: the root holds \<^verbatim>\<open>x@1\<close>, and the list of \<^verbatim>\<open>x\<close> has two idents.
\<close>

theorem pinned_name_gets_second_ident:
  "map_option
     (\<lambda>(g, h, tree). map_option (\<lambda>popularityMap. getHoistIdentMap h tree popularityMap)
        (buildPopularityMap 20 h tree))
     (cloneTree 20 two_versions 0)
   = Some (Some [Some (''.'', [''.@workspace:.'']), Some (''x'', [''x@1'', ''x@2'']),
                 Some (''c'', [''c@1''])])"
  by code_simp

section \<open>Scenarios\<close>

text \<open>
  C3, as the claim states it, fails: on the cyclic peer pair no cycle of nodes that
  depend on each other is hoisted, for nothing is classified and nothing is hoisted.
  \<^verbatim>\<open>a@1\<close> and \<^verbatim>\<open>b@1\<close> are dependencies of the root already, and each holds the other only
  as a peer dependency, which \<^verbatim>\<open>getSortedRegularDependencies\<close> leaves out.  The
  classification under the decoupled copy of either runs over no node; after \<^verbatim>\<open>hoistTo\<close>
  no node of the store has a record in \<^verbatim>\<open>hoistedDependencies\<close>; and the output is what
  \<^verbatim>\<open>shrinkTree\<close> makes of the work tree as \<^verbatim>\<open>cloneTree\<close> built it.
\<close>

theorem cyclic_peers_nothing_to_hoist:
  "(case decoupleGraphNode (work_tree cyclic_peers) 0 1 of (h, a) \<Rightarrow> classify 20 h 0 a)
     = Some (Inr ([], [], []))
   \<and> (case decoupleGraphNode (work_tree cyclic_peers) 0 2 of (h, b) \<Rightarrow> classify 20 h 0 b)
     = Some (Inr ([], [], []))
   \<and> hoisted_records (hoistTo 20 (internal_options (\<lambda>s. 0) no_options None) 0 0 []
        (work_tree cyclic_peers, [''.@workspace:.''])) = Some [[], [], [], [], []]
   \<and> shrinkTree 20 (work_tree cyclic_peers) 0 = Some cyclic_peers_out"
  by code_simp

text \<open>
  C3, amended.  For the cyclic peer pair \<^verbatim>\<open>hoist\<close> returns a root with exactly the
  children \<^verbatim>\<open>a@1\<close> and \<^verbatim>\<open>b@1\<close>, neither with a child.  The rule for nodes that depend on
  each other acts when the pair is nested under a common parent, as in \<open>nested_peers\<close>:
  the parent \<^verbatim>\<open>w@1\<close> (node 1) is hoisted from as it is, \<^verbatim>\<open>b@1\<close> (node 3) is classified
  \<^verbatim>\<open>DEPENDS\<close> on \<^verbatim>\<open>a@1\<close> (node 2) and \<^verbatim>\<open>a@1\<close> \<^verbatim>\<open>DEPENDS\<close> on \<^verbatim>\<open>b@1\<close>, no node is marked
  unhoistable, both are taken out of \<^verbatim>\<open>w@1\<close>, whose \<^verbatim>\<open>hoistedDependencies\<close> records them,
  and the output root has the children \<^verbatim>\<open>w@1\<close>, \<^verbatim>\<open>b@1\<close> and \<^verbatim>\<open>a@1\<close>, none of them with a
  child.
\<close>

theorem peer_cycle_hoisted:
  "hoist 20 num None cyclic_peers 0 no_options = Some (Inr (cyclic_peers, cyclic_peers_out))
   \<and> decoupleGraphNode (work_tree nested_peers) 0 1 = (work_tree nested_peers, 1)
   \<and> classify 20 (work_tree nested_peers) 0 1
       = Some (Inr ([3, 2], [Some (3, DEPENDS [2]), Some (2, DEPENDS [3])], []))
   \<and> hoisted_records (hoistTo 20 (internal_options num no_options None) 0 0 []
        (work_tree nested_peers, [''.@workspace:.'']))
       = Some [[], [(''b'', 3), (''a'', 2)], [], [], [], []]
   \<and> hoist 20 num None nested_peers 0 no_options = Some (Inr (nested_peers, nested_peers_out))"
  by code_simp

text \<open>
  C1.  The claim: after hoisting, every original dependency of a node that is not a
  peer resolves, from the node up to the root, to a node of the same ident.  The code on
  \<open>root_cycle\<close>: the node 2 of the final work tree is \<^verbatim>\<open>a@1\<close>, the one dependency of the
  root; its original dependency \<^verbatim>\<open>.\<close> resolves to nothing, and with \<^verbatim>\<open>debugLevel: 1\<close> the
  self-check of \<open>hoist\<close> throws.
\<close>

theorem root_cycle_breaks_require_promise:
  "(case cloneTree 20 root_cycle 0 of
      Some (g, h0, tree) \<Rightarrow>
        (case hoistTo 20 (internal_options num no_options None) tree tree []
                (h0, [locator (h0 ! tree)]) of
           Some (Inr (h, rootNodePath)) \<Rightarrow>
             jm_get (dependencies (h ! tree)) ''a'' = Some 2
             \<and> jm_get (originalDependencies (h ! 2)) ''.'' = Some tree
             \<and> ''.'' \<notin> set (peerNames (h ! 2))
             \<and> resolve h [tree, 2] ''.'' = None
         | _ \<Rightarrow> False)
    | None \<Rightarrow> False)
   \<and> hoist 20 num None root_cycle 0 \<lparr>check = None, debugLevel = Some 1\<rparr> =
       Some (Inl (SelfCheckError
         (''.'' @ arrow @ ''a@1 - broken require promise: no required dependency .@workspace:. found'')))"
  by code_simp

section \<open>Peer names of the hoist root\<close>

lemma identMap_add_dep_peer:
  "p \<in> set P \<Longrightarrow> jm_get (identMap_add_dep h P dep m) p = jm_get m p"
  by (auto simp: identMap_add_dep_def jm_get_set)

lemma identMap_add_key_peer:
  "p \<in> set P \<Longrightarrow> jm_get (identMap_add_key P key m) p = jm_get m p"
  by (auto simp: identMap_add_key_def Let_def jm_get_set)

lemma fold_add_dep_peer:
  "p \<in> set P \<Longrightarrow> jm_get (fold (identMap_add_dep h P) deps m) p = jm_get m p"
  by (induction deps arbitrary: m) (simp_all add: identMap_add_dep_peer)

lemma fold_add_key_peer:
  "p \<in> set P \<Longrightarrow> jm_get (fold (identMap_add_key P) keys m) p = jm_get m p"
  by (induction keys arbitrary: m) (simp_all add: identMap_add_key_peer)

lemma getHoistIdentMap_peer:
  assumes p: "p \<in> set (peerNames (h ! R))"
  shows "jm_get (getHoistIdentMap h R pm) p =
           (if p = name (h ! R) then Some [ident (h ! R)] else None)"
proof -
  have "jm_get (getHoistIdentMap h R pm) p = jm_get [Some (name (h ! R), [ident (h ! R)])] p"
    using p by (simp add: getHoistIdentMap_def Let_def fold_add_key_peer fold_add_dep_peer)
  then show ?thesis by (simp add: jm_get_def)
qed

lemma jm_get_initial_hoistIdents:
  "jm_get (initial_hoistIdents m) p = map_option first_ident (jm_get m p)"
proof -
  have e: "jm_entries (map (Some \<circ> f) xs) = map f xs"
    for xs :: "('a \<times> 'b) list" and f :: "'a \<times> 'b \<Rightarrow> 'c \<times> 'd"
    by (induction xs) simp_all
  have "map_of (map (\<lambda>(k, v). (k, first_ident v)) xs) p = map_option first_ident (map_of xs p)"
    for xs :: "(string \<times> Ident list) list"
    by (induction xs) auto
  moreover have "initial_hoistIdents m = map Some (map (\<lambda>(k, v). (k, first_ident v)) (jm_entries m))"
    by (simp add: initial_hoistIdents_def case_prod_unfold)
  ultimately show ?thesis by (simp add: jm_get_def e)
qed

lemma getNodeHoistInfo_no_candidate:
  "nodePath \<noteq> [] \<Longrightarrow> jm_get hoistIdents (name (h ! node)) = None \<Longrightarrow>
   getNodeHoistInfo h rootNodePath nodePath node hoistedDeps hoistIdents hoistIdentMap outputReason
     = Inr (NO None)"
  by (simp add: getNodeHoistInfo_def Let_def)

lemma next_candidate_other:
  "nm \<noteq> p \<Longrightarrow> next_candidate h R (nm, ids) (hi, him, c) = (hi', him', c') \<Longrightarrow>
   jm_get hi' p = jm_get hi p \<and> jm_get him' p = jm_get him p"
  by (auto simp: next_candidate_def jm_get_set jm_get_delete_other split: if_splits)

lemma fold_next_candidate_other:
  "p \<notin> fst ` set es \<Longrightarrow> fold (next_candidate h R) es (hi, him, c) = (hi', him', c') \<Longrightarrow>
   jm_get hi' p = jm_get hi p \<and> jm_get him' p = jm_get him p"
proof (induction es arbitrary: hi him c)
  case Nil
  then show ?case by simp
next
  case (Cons e es)
  obtain nm ids where e: "e = (nm, ids)" by (cases e)
  obtain hi1 him1 c1 where s: "next_candidate h R (nm, ids) (hi, him, c) = (hi1, him1, c1)"
    by (cases "next_candidate h R (nm, ids) (hi, him, c)")
  from Cons.prems e have "nm \<noteq> p" by auto
  from next_candidate_other [OF this s]
  have 1: "jm_get hi1 p = jm_get hi p \<and> jm_get him1 p = jm_get him p" .
  from Cons.prems e s have "fold (next_candidate h R) es (hi1, him1, c1) = (hi', him', c')"
    by simp
  with Cons.IH [of hi1 him1 c1] Cons.prems(1) 1 show ?case by simp
qed

lemma next_candidates_absent:
  assumes "jm_get him p = None" and "jm_get hi p = None"
    and "next_candidates h R (hi, him) = (hi', him', c)"
  shows "jm_get hi' p = None \<and> jm_get him' p = None"
proof -
  from assms(1) have "p \<notin> fst ` set (jm_entries him)"
    by (simp add: jm_get_def map_of_eq_None_iff)
  with assms fold_next_candidate_other [of p "jm_entries him" h R hi him False hi' him' c]
  show ?thesis by (simp add: next_candidates_def)
qed

text \<open>
  C10, as the claim states it, fails for a hoist root whose own name is one of its peer
  names: in the work tree of \<open>self_peer\<close> the node 1 is \<^verbatim>\<open>a@1\<close> with the peer name \<^verbatim>\<open>a\<close>;
  taken as hoist root, its candidate map pins \<^verbatim>\<open>a\<close> to \<^verbatim>\<open>a@1\<close>, and the node \<^verbatim>\<open>a@1\<close> below
  \<^verbatim>\<open>b@1\<close> is not classified \<^verbatim>\<open>NO\<close>.
\<close>

theorem own_name_among_peers_is_candidate:
  "''a'' \<in> set (peerNames (work_tree self_peer ! 1))
   \<and> map_option (\<lambda>popularityMap. jm_get (getHoistIdentMap (work_tree self_peer) 1 popularityMap) ''a'')
        (buildPopularityMap 20 (work_tree self_peer) 1) = Some (Some [''a@1''])
   \<and> map_option
        (\<lambda>popularityMap.
           getNodeHoistInfo (work_tree self_peer) [''.@workspace:.'', ''a@1''] [1, 3] 1 []
             (initial_hoistIdents (getHoistIdentMap (work_tree self_peer) 1 popularityMap))
             (getHoistIdentMap (work_tree self_peer) 1 popularityMap) False)
        (buildPopularityMap 20 (work_tree self_peer) 1) = Some (Inr (DEPENDS [1]))"
  by code_simp

section \<open>Dependency ordering\<close>

lemma takeWhile_fresh: "x \<notin> set ds \<Longrightarrow> takeWhile (\<lambda>z. z \<noteq> x) (ds @ [x]) = ds"
  by (induction ds) auto

lemma peers_before_append:
  assumes "peers_before h nd ds" and "x \<notin> set ds"
    and "\<forall>P. peer_edge h nd x P \<longrightarrow> P \<in> set ds \<or> P = x \<or> (peer_edge h nd)\<^sup>*\<^sup>* P x"
  shows "peers_before h nd (ds @ [x])"
  unfolding peers_before_def
proof (intro ballI allI impI)
  fix y P assume y: "y \<in> set (ds @ [x])" and e: "peer_edge h nd y P"
  show "P \<in> set (takeWhile (\<lambda>z. z \<noteq> y) (ds @ [x])) \<or> P = y \<or> (peer_edge h nd)\<^sup>*\<^sup>* P y"
  proof (cases "y \<in> set ds")
    case True
    then have "takeWhile (\<lambda>z. z \<noteq> y) (ds @ [x]) = takeWhile (\<lambda>z. z \<noteq> y) ds"
      by (simp add: takeWhile_append1)
    with assms(1) True e show ?thesis by (auto simp: peers_before_def)
  next
    case False
    with y have yx: "y = x" by simp
    with assms(2) have "takeWhile (\<lambda>z. z \<noteq> y) (ds @ [x]) = ds"
      by (simp add: takeWhile_fresh)
    with assms(3) e yx show ?thesis by auto
  qed
qed

lemma js_add_set [simp]: "set (js_add s x) = insert x (set s)"
  by (auto simp: js_add_def)

lemma addDep_inv_trans:
  assumes "addDep_inv h nd A S deps s d" and "addDep_inv h nd A (set s) d s1 d1"
  shows "addDep_inv h nd A S deps s1 d1"
  using assms unfolding addDep_inv_def by (auto; blast)

lemma addDep_spec:
  assumes fin: "finite A" and closed: "\<forall>D\<in>A. \<forall>P. peer_edge h nd D P \<longrightarrow> P \<in> A"
  shows "dep \<in> A \<Longrightarrow> card (A - set seen) < n
    \<Longrightarrow> \<forall>y \<in> set seen - set deps. (peer_edge h nd)\<^sup>*\<^sup>* y dep
    \<Longrightarrow> peers_before h nd deps \<Longrightarrow> distinct deps
    \<Longrightarrow> \<exists>seen' deps'. addDep n h nd dep (seen, deps) = Some (seen', deps')
          \<and> addDep_inv h nd A (set seen) deps seen' deps' \<and> dep \<in> set seen'"
proof (induction n arbitrary: dep seen deps)
  case 0
  then show ?case by simp
next
  case (Suc n)
  show ?case
  proof (cases "dep \<in> set seen")
    case True
    with Suc.prems show ?thesis by (auto simp: addDep_inv_def)
  next
    case False
    define F where "F = (\<lambda>peerName (s, d).
               if peerName \<notin> set (peerNames nd) then
                 (case jm_get (dependencies nd) peerName of
                    Some peerDep \<Rightarrow>
                      if peerDep \<notin> set d then addDep n h nd peerDep (s, d) else Some (s, d)
                  | None \<Rightarrow> Some (s, d))
               else Some (s, d))"
    define S where "S = insert dep (set seen)"
    have S_reach: "\<forall>y \<in> S - set deps. (peer_edge h nd)\<^sup>*\<^sup>* y dep"
      using Suc.prems(3) by (auto simp: S_def)
    have loop: "set ps \<subseteq> set (peerNames (h ! dep)) \<Longrightarrow> addDep_inv h nd A S deps s d
      \<Longrightarrow> \<exists>s' d'. ofold F ps (s, d) = Some (s', d') \<and> addDep_inv h nd A (set s) d s' d'
            \<and> (\<forall>p \<in> set ps. p \<notin> set (peerNames nd) \<longrightarrow>
                 (\<forall>P. jm_get (dependencies nd) p = Some P \<longrightarrow> P \<in> set d' \<or> P \<in> set s'))"
      for ps s d
    proof (induction ps arbitrary: s d)
      case Nil
      then show ?case by (auto simp: addDep_inv_def)
    next
      case (Cons p ps)
      have sub: "set ps \<subseteq> set (peerNames (h ! dep))" using Cons.prems(1) by simp
      have p_in: "p \<in> set (peerNames (h ! dep))" using Cons.prems(1) by simp
      consider (skip) "p \<in> set (peerNames nd) \<or> jm_get (dependencies nd) p = None"
        | (present) P where "p \<notin> set (peerNames nd)" "jm_get (dependencies nd) p = Some P" "P \<in> set d"
        | (call) P where "p \<notin> set (peerNames nd)" "jm_get (dependencies nd) p = Some P" "P \<notin> set d"
        by (cases "jm_get (dependencies nd) p") auto
      then show ?case
      proof cases
        case skip
        then have Fp: "F p (s, d) = Some (s, d)" by (auto simp: F_def)
        from Cons.IH [OF sub Cons.prems(2)] obtain s' d' where
          r: "ofold F ps (s, d) = Some (s', d')" "addDep_inv h nd A (set s) d s' d'"
            "\<forall>p \<in> set ps. p \<notin> set (peerNames nd) \<longrightarrow>
                 (\<forall>P. jm_get (dependencies nd) p = Some P \<longrightarrow> P \<in> set d' \<or> P \<in> set s')"
          by blast
        with Fp skip show ?thesis by auto
      next
        case present
        then have Fp: "F p (s, d) = Some (s, d)" by (auto simp: F_def)
        from Cons.IH [OF sub Cons.prems(2)] obtain s' d' where
          r: "ofold F ps (s, d) = Some (s', d')" "addDep_inv h nd A (set s) d s' d'"
            "\<forall>p \<in> set ps. p \<notin> set (peerNames nd) \<longrightarrow>
                 (\<forall>P. jm_get (dependencies nd) p = Some P \<longrightarrow> P \<in> set d' \<or> P \<in> set s')"
          by blast
        have "set d \<subseteq> set d'"
          using r(2) unfolding addDep_inv_def by auto
        with Fp present r show ?thesis by auto
      next
        case call
        then have Fp: "F p (s, d) = addDep n h nd P (s, d)" by (auto simp: F_def)
        have edge: "peer_edge h nd dep P"
          using call p_in by (auto simp: peer_edge_def)
        have PA: "P \<in> A" using closed Suc.prems(1) edge by blast
        have inv: "addDep_inv h nd A S deps s d" by (rule Cons.prems(2))
        have "A - set s \<subset> A - set seen"
          using inv False Suc.prems(1) unfolding addDep_inv_def S_def by auto
        then have "card (A - set s) < card (A - set seen)"
          using fin by (intro psubset_card_mono) auto
        with Suc.prems(2) have fuel: "card (A - set s) < n" by simp
        have reach: "\<forall>y \<in> set s - set d. (peer_edge h nd)\<^sup>*\<^sup>* y P"
        proof
          fix y assume "y \<in> set s - set d"
          with inv have "y \<in> S - set deps" unfolding addDep_inv_def by auto
          with S_reach have "(peer_edge h nd)\<^sup>*\<^sup>* y dep" by blast
          with edge show "(peer_edge h nd)\<^sup>*\<^sup>* y P" by auto
        qed
        have pb: "peers_before h nd d" "distinct d"
          using inv unfolding addDep_inv_def by auto
        from Suc.IH [OF PA fuel reach pb] obtain s1 d1 where
          c: "addDep n h nd P (s, d) = Some (s1, d1)" "addDep_inv h nd A (set s) d s1 d1"
            "P \<in> set s1"
          by blast
        have inv1: "addDep_inv h nd A S deps s1 d1"
          by (rule addDep_inv_trans [OF inv c(2)])
        from Cons.IH [OF sub inv1] obtain s' d' where
          r: "ofold F ps (s1, d1) = Some (s', d')" "addDep_inv h nd A (set s1) d1 s' d'"
            "\<forall>p \<in> set ps. p \<notin> set (peerNames nd) \<longrightarrow>
                 (\<forall>P. jm_get (dependencies nd) p = Some P \<longrightarrow> P \<in> set d' \<or> P \<in> set s')"
          by blast
        have mono: "set s1 \<subseteq> set s'" "set d1 \<subseteq> set d'"
          using r(2) unfolding addDep_inv_def by auto
        have rel: "addDep_inv h nd A (set s) d s' d'"
          by (rule addDep_inv_trans [OF c(2) r(2)])
        have "P \<in> set d' \<or> P \<in> set s'"
        proof (cases "P \<in> set d1")
          case True
          with mono show ?thesis by auto
        next
          case False
          with c(3) mono show ?thesis by auto
        qed
        with Fp c r rel call show ?thesis by auto
      qed
    qed
    have inv0: "addDep_inv h nd A S deps (js_add seen dep) deps"
      using Suc.prems unfolding addDep_inv_def S_def by auto
    from loop [OF subset_refl inv0] obtain s' d' where
      r0: "ofold F (peerNames (h ! dep)) (js_add seen dep, deps) = Some (s', d')"
        "addDep_inv h nd A (set (js_add seen dep)) deps s' d'"
        "\<forall>p \<in> set (peerNames (h ! dep)). p \<notin> set (peerNames nd) \<longrightarrow>
             (\<forall>P. jm_get (dependencies nd) p = Some P \<longrightarrow> P \<in> set d' \<or> P \<in> set s')"
      by blast
    have r: "ofold F (peerNames (h ! dep)) (js_add seen dep, deps) = Some (s', d')"
        "addDep_inv h nd A S deps s' d'"
        "\<forall>p \<in> set (peerNames (h ! dep)). p \<notin> set (peerNames nd) \<longrightarrow>
             (\<forall>P. jm_get (dependencies nd) p = Some P \<longrightarrow> P \<in> set d' \<or> P \<in> set s')"
      using r0 by (simp_all add: S_def)
    have res: "addDep (Suc n) h nd dep (seen, deps) = Some (s', js_add d' dep)"
      using False r(1) by (simp add: F_def)
    have succ: "\<forall>P. peer_edge h nd dep P \<longrightarrow> P \<in> set d' \<or> P = dep \<or> (peer_edge h nd)\<^sup>*\<^sup>* P dep"
    proof (intro allI impI)
      fix P assume "peer_edge h nd dep P"
      then obtain p where p: "p \<in> set (peerNames (h ! dep))" "p \<notin> set (peerNames nd)"
        "jm_get (dependencies nd) p = Some P" by (auto simp: peer_edge_def)
      with r(3) have "P \<in> set d' \<or> P \<in> set s'" by blast
      then show "P \<in> set d' \<or> P = dep \<or> (peer_edge h nd)\<^sup>*\<^sup>* P dep"
      proof
        assume "P \<in> set d'" then show ?thesis by simp
      next
        assume Ps: "P \<in> set s'"
        show ?thesis
        proof (cases "P \<in> set d'")
          case True then show ?thesis by simp
        next
          case False
          with Ps r(2) have "P \<in> S - set deps" unfolding addDep_inv_def by auto
          with S_reach show ?thesis by blast
        qed
      qed
    qed
    have pb: "peers_before h nd (js_add d' dep)"
    proof (cases "dep \<in> set d'")
      case True
      with r(2) show ?thesis by (simp add: js_add_def addDep_inv_def)
    next
      case False
      from r(2) have "peers_before h nd d'" by (simp add: addDep_inv_def)
      from peers_before_append [OF this False succ] False show ?thesis
        by (simp add: js_add_def)
    qed
    have "addDep_inv h nd A (set seen) deps s' (js_add d' dep)"
      using r(2) pb Suc.prems(1) unfolding addDep_inv_def S_def
      by (auto simp: js_add_def)
    moreover have "dep \<in> set s'" using r(2) unfolding addDep_inv_def S_def by auto
    ultimately show ?thesis using res by blast
  qed
qed

lemma length_jm_entries: "length (jm_entries m) \<le> length m"
proof (induction m)
  case Nil
  then show ?case by simp
next
  case (Cons e m)
  then show ?case by (cases e) auto
qed

lemma jm_get_in_entries: "jm_get m k = Some v \<Longrightarrow> (k, v) \<in> set (jm_entries m)"
  by (simp add: jm_get_def map_of_SomeD)

lemma regular_closed:
  assumes "keys_are_names h N"
  shows "\<forall>D \<in> regular_dependencies h N. \<forall>P. peer_edge h (h ! N) D P \<longrightarrow> P \<in> regular_dependencies h N"
proof (intro ballI allI impI)
  fix D P assume "peer_edge h (h ! N) D P"
  then obtain p where p: "p \<notin> set (peerNames (h ! N))" "jm_get (dependencies (h ! N)) p = Some P"
    by (auto simp: peer_edge_def)
  from jm_get_in_entries [OF p(2)] have e: "(p, P) \<in> set (jm_entries (dependencies (h ! N)))" .
  with assms have "name (h ! P) = p" by (auto simp: keys_are_names_def)
  moreover from e have "P \<in> set (jm_values (dependencies (h ! N)))"
    by (force simp: jm_values_def)
  ultimately show "P \<in> regular_dependencies h N" using p(1) by (simp add: regular_dependencies_def)
qed

lemma sorted_loop:
  assumes fin: "finite A" and closed: "\<forall>D\<in>A. \<forall>P. peer_edge h nd D P \<longrightarrow> P \<in> A"
    and fuel: "card A < n"
    and G: "G = (\<lambda>dep deps. if name (h ! dep) \<notin> set (peerNames nd)
                 then map_option snd (addDep n h nd dep ([], deps)) else Some deps)"
  shows "\<forall>v \<in> set vs. name (h ! v) \<notin> set (peerNames nd) \<longrightarrow> v \<in> A
    \<Longrightarrow> peers_before h nd ds \<Longrightarrow> distinct ds \<Longrightarrow> set ds \<subseteq> A
    \<Longrightarrow> \<exists>ds'. ofold G vs ds = Some ds' \<and> peers_before h nd ds' \<and> distinct ds'
          \<and> set ds \<subseteq> set ds' \<and> set ds' \<subseteq> A
          \<and> (\<forall>v \<in> set vs. name (h ! v) \<notin> set (peerNames nd) \<longrightarrow> v \<in> set ds')"
proof (induction vs arbitrary: ds)
  case Nil
  then show ?case by simp
next
  case (Cons v vs)
  have rest: "\<forall>v \<in> set vs. name (h ! v) \<notin> set (peerNames nd) \<longrightarrow> v \<in> A"
    using Cons.prems(1) by simp
  show ?case
  proof (cases "name (h ! v) \<notin> set (peerNames nd)")
    case False
    then have "G v ds = Some ds" by (simp add: G)
    with Cons.IH [OF rest Cons.prems(2,3,4)] False show ?thesis by auto
  next
    case True
    with Cons.prems(1) have vA: "v \<in> A" by simp
    have "card (A - set []) < n" using fuel by simp
    from addDep_spec [OF fin closed vA this _ Cons.prems(2,3)]
    obtain seen' ds1 where
      a: "addDep n h nd v ([], ds) = Some (seen', ds1)"
        "addDep_inv h nd A (set []) ds seen' ds1" "v \<in> set seen'"
      by auto
    then have Gv: "G v ds = Some ds1" using True by (simp add: G)
    from a(2,3) have v1: "v \<in> set ds1" unfolding addDep_inv_def by auto
    from a(2) Cons.prems(4) have i1: "peers_before h nd ds1" "distinct ds1" "set ds1 \<subseteq> A"
      "set ds \<subseteq> set ds1"
      unfolding addDep_inv_def by auto
    from Cons.IH [OF rest i1(1,2,3)] obtain ds' where
      r: "ofold G vs ds1 = Some ds'" "peers_before h nd ds'" "distinct ds'"
        "set ds1 \<subseteq> set ds'" "set ds' \<subseteq> A"
        "\<forall>v \<in> set vs. name (h ! v) \<notin> set (peerNames nd) \<longrightarrow> v \<in> set ds'"
      by blast
    with Gv v1 i1(4) show ?thesis by auto
  qed
qed

lemma getSorted_spec:
  assumes wf: "keys_are_names h N" and fuel: "length (dependencies (h ! N)) < n"
  shows "\<exists>ds. getSortedRegularDependencies n h N = Some ds \<and> distinct ds
           \<and> set ds = regular_dependencies h N \<and> peers_before h (h ! N) ds"
proof -
  let ?A = "regular_dependencies h N"
  have fin: "finite ?A" by (simp add: regular_dependencies_def)
  have "card ?A \<le> card (set (jm_values (dependencies (h ! N))))"
    by (intro card_mono) (auto simp: regular_dependencies_def)
  also have "\<dots> \<le> length (jm_values (dependencies (h ! N)))" by (rule card_length)
  also have "\<dots> \<le> length (dependencies (h ! N))"
    by (simp add: jm_values_def length_jm_entries)
  finally have c: "card ?A < n" using fuel by simp
  have all: "\<forall>v \<in> set (jm_values (dependencies (h ! N))).
               name (h ! v) \<notin> set (peerNames (h ! N)) \<longrightarrow> v \<in> ?A"
    by (simp add: regular_dependencies_def)
  have pb0: "peers_before h (h ! N) []" by (simp add: peers_before_def)
  from sorted_loop [OF fin regular_closed [OF wf] c refl all pb0]
  obtain ds where
    r: "ofold (\<lambda>dep deps. if name (h ! dep) \<notin> set (peerNames (h ! N))
                 then map_option snd (addDep n h (h ! N) dep ([], deps)) else Some deps)
          (jm_values (dependencies (h ! N))) [] = Some ds"
      "peers_before h (h ! N) ds" "distinct ds" "set ds \<subseteq> ?A"
      "\<forall>v \<in> set (jm_values (dependencies (h ! N))).
           name (h ! v) \<notin> set (peerNames (h ! N)) \<longrightarrow> v \<in> set ds"
    by auto
  from r(4,5) have "set ds = ?A" by (auto simp: regular_dependencies_def)
  with r show ?thesis by (auto simp: getSortedRegularDependencies_def)
qed

lemma takeWhile_distinct_nth:
  "distinct ds \<Longrightarrow> i < length ds \<Longrightarrow> takeWhile (\<lambda>y. y \<noteq> ds ! i) ds = take i ds"
proof (induction ds arbitrary: i)
  case Nil
  then show ?case by simp
next
  case (Cons x ds)
  then show ?case by (cases i) auto
qed

lemma nth_in_take_distinct:
  "distinct ds \<Longrightarrow> j < length ds \<Longrightarrow> ds ! j \<in> set (take i ds) \<Longrightarrow> j < i"
  by (metis distinct_conv_nth in_set_conv_nth length_take min_less_iff_conj nth_take)

lemma reach_siblings:
  assumes wf: "keys_are_names h N" and ds: "set ds = regular_dependencies h N"
  shows "(peer_edge h (h ! N))\<^sup>*\<^sup>* P D \<Longrightarrow> P \<in> set ds \<Longrightarrow> (sibling_peer h ds)\<^sup>*\<^sup>* P D \<and> D \<in> set ds"
proof (induction rule: rtranclp_induct)
  case base
  then show ?case by simp
next
  case (step y z)
  then have y: "(sibling_peer h ds)\<^sup>*\<^sup>* P y" "y \<in> set ds" by auto
  from regular_closed [OF wf] step(2) y(2) ds have z: "z \<in> set ds" by blast
  from step(2) obtain p where p: "p \<in> set (peerNames (h ! y))"
    "jm_get (dependencies (h ! N)) p = Some z" by (auto simp: peer_edge_def)
  from jm_get_in_entries [OF p(2)] wf have "name (h ! z) = p" by (auto simp: keys_are_names_def)
  with p(1) y(2) z have "sibling_peer h ds y z" by (simp add: sibling_peer_def)
  with y(1) z show ?case by auto
qed


text \<open>
  C6, as the claim states it, fails where siblings peer-depend on each other: in the
  work tree of \<open>cyclic_peers\<close> the root holds \<^verbatim>\<open>a@1\<close> (node 1, peer \<^verbatim>\<open>b\<close>) and \<^verbatim>\<open>b@1\<close> (node
  2, peer \<^verbatim>\<open>a\<close>); the result is \<^verbatim>\<open>b@1\<close>, \<^verbatim>\<open>a@1\<close>, and \<^verbatim>\<open>a@1\<close>, a peer of \<^verbatim>\<open>b@1\<close>, does not
  come before it.
\<close>

theorem cyclic_siblings_not_peers_first:
  "keys_are_names (work_tree cyclic_peers) 0
   \<and> getSortedRegularDependencies 3 (work_tree cyclic_peers) 0 = Some [2, 1]
   \<and> \<not> peers_first (work_tree cyclic_peers) [2, 1]"
proof -
  have 1: "keys_are_names (work_tree cyclic_peers) 0" by code_simp
  have 2: "getSortedRegularDependencies 3 (work_tree cyclic_peers) 0 = Some [2, 1]" by code_simp
  have n: "name (work_tree cyclic_peers ! 1) = ''a''" by code_simp
  have p: "peerNames (work_tree cyclic_peers ! 2) = [''a'']" by code_simp
  have "\<not> peers_first (work_tree cyclic_peers) [2, 1]"
  proof
    assume "peers_first (work_tree cyclic_peers) [2, 1]"
    then have "\<forall>i. i < length [2::nat, 1] \<longrightarrow> (\<forall>j. j < length [2::nat, 1] \<longrightarrow>
        i \<noteq> j \<and> name (work_tree cyclic_peers ! ([2, 1] ! j))
           \<in> set (peerNames (work_tree cyclic_peers ! ([2, 1] ! i))) \<longrightarrow> j < i)"
      unfolding peers_first_def by blast
    then have "(0::nat) < length [2::nat, 1] \<longrightarrow> (\<forall>j. j < length [2::nat, 1] \<longrightarrow>
        0 \<noteq> j \<and> name (work_tree cyclic_peers ! ([2, 1] ! j))
           \<in> set (peerNames (work_tree cyclic_peers ! ([2, 1] ! 0))) \<longrightarrow> j < 0)"
      by (rule spec)
    then have "\<forall>j. j < length [2::nat, 1] \<longrightarrow>
        0 \<noteq> j \<and> name (work_tree cyclic_peers ! ([2, 1] ! j))
           \<in> set (peerNames (work_tree cyclic_peers ! ([2, 1] ! 0))) \<longrightarrow> j < 0"
      by simp
    then have "(1::nat) < length [2::nat, 1] \<longrightarrow>
        (0::nat) \<noteq> 1 \<and> name (work_tree cyclic_peers ! ([2, 1] ! 1))
           \<in> set (peerNames (work_tree cyclic_peers ! ([2, 1] ! 0))) \<longrightarrow> (1::nat) < 0"
      by (rule spec)
    with n p show False by simp
  qed
  with 1 2 show ?thesis by simp
qed

text \<open>
  C6, amended.  Let the map of \<open>N\<close> hold every dependency under its name, and let the
  bound on the recursion exceed the size of the map.  Then
  \<^verbatim>\<open>getSortedRegularDependencies(N)\<close> returns, each once, exactly the direct dependencies
  of \<open>N\<close> whose name is not a peer name of \<open>N\<close>; and whenever a returned \<open>D\<close> has the
  name of another returned \<open>P\<close> as a peer name, \<open>P\<close> comes before \<open>D\<close>, or \<open>P\<close> in turn
  peer-depends on \<open>D\<close> through a chain of returned dependencies.
\<close>

theorem sorted_regular_dependencies:
  assumes wf: "keys_are_names h N" and fuel: "length (dependencies (h ! N)) < n"
  shows "\<exists>ds. getSortedRegularDependencies n h N = Some ds \<and> distinct ds
           \<and> set ds = regular_dependencies h N
           \<and> (\<forall>i j. i < length ds \<and> j < length ds \<and> i \<noteq> j
                  \<and> name (h ! (ds ! j)) \<in> set (peerNames (h ! (ds ! i)))
                \<longrightarrow> j < i \<or> (sibling_peer h ds)\<^sup>*\<^sup>* (ds ! j) (ds ! i))"
proof -
  from getSorted_spec [OF wf fuel] obtain ds where
    r: "getSortedRegularDependencies n h N = Some ds" "distinct ds"
      "set ds = regular_dependencies h N" "peers_before h (h ! N) ds"
    by blast
  have "j < i \<or> (sibling_peer h ds)\<^sup>*\<^sup>* (ds ! j) (ds ! i)"
    if ij: "i < length ds" "j < length ds" "i \<noteq> j"
      and peer: "name (h ! (ds ! j)) \<in> set (peerNames (h ! (ds ! i)))" for i j
  proof -
    let ?D = "ds ! i" and ?P = "ds ! j"
    from ij r(3) have P: "?P \<in> regular_dependencies h N" by (metis nth_mem)
    then obtain k where k: "(k, ?P) \<in> set (jm_entries (dependencies (h ! N)))"
      by (auto simp: regular_dependencies_def jm_values_def)
    with wf have kn: "k = name (h ! ?P)" by (auto simp: keys_are_names_def)
    from wf k have "jm_get (dependencies (h ! N)) k = Some ?P"
      by (simp add: keys_are_names_def jm_get_def jm_keys_def)
    with kn peer P have edge: "peer_edge h (h ! N) ?D ?P"
      by (auto simp: peer_edge_def regular_dependencies_def)
    from ij have Dm: "?D \<in> set ds" by simp
    from r(4) Dm edge have
      "?P \<in> set (takeWhile (\<lambda>y. y \<noteq> ?D) ds) \<or> ?P = ?D \<or> (peer_edge h (h ! N))\<^sup>*\<^sup>* ?P ?D"
      unfolding peers_before_def by blast
    then consider "?P \<in> set (take i ds)" | "?P = ?D" | "(peer_edge h (h ! N))\<^sup>*\<^sup>* ?P ?D"
      using takeWhile_distinct_nth [OF r(2) ij(1)] by auto
    then show ?thesis
    proof cases
      case 1
      from nth_in_take_distinct [OF r(2) ij(2) 1] show ?thesis by simp
    next
      case 2
      with r(2) ij show ?thesis by (simp add: nth_eq_iff_index_eq)
    next
      case 3
      from ij have "?P \<in> set ds" by simp
      from reach_siblings [OF wf r(3) 3 this] show ?thesis by simp
    qed
  qed
  with r show ?thesis by blast
qed

theorem sorted_regular_dependencies_witness:
  "keys_are_names (work_tree plugin_host) 0
   \<and> length (dependencies (work_tree plugin_host ! 0)) < 3
   \<and> (\<exists>ds. getSortedRegularDependencies 3 (work_tree plugin_host) 0 = Some ds
          \<and> ds = [2, 1] \<and> set ds = regular_dependencies (work_tree plugin_host) 0
          \<and> name (work_tree plugin_host ! (ds ! 0))
               \<in> set (peerNames (work_tree plugin_host ! (ds ! 1))))"
proof -
  have a: "keys_are_names (work_tree plugin_host) 0" by code_simp
  have b: "length (dependencies (work_tree plugin_host ! 0)) < 3" by code_simp
  have c: "getSortedRegularDependencies 3 (work_tree plugin_host) 0 = Some [2, 1]" by code_simp
  have d: "name (work_tree plugin_host ! 2) \<in> set (peerNames (work_tree plugin_host ! 1))"
    by code_simp
  from sorted_regular_dependencies [OF a b] c d a b show ?thesis by auto
qed

section \<open>Shape of the work tree and of the output\<close>

subsection \<open>Maps and stores\<close>

lemma ext_refl [simp]: "ext h h"
  by (simp add: ext_def)

lemma ext_trans: "ext h h1 \<Longrightarrow> ext h1 h2 \<Longrightarrow> ext h h2"
  by (auto simp: ext_def)

lemma ext_valid: "ext h h' \<Longrightarrow> a < length h \<Longrightarrow> a < length h'"
  by (auto simp: ext_def)

lemma ext_name: "ext h h' \<Longrightarrow> a < length h \<Longrightarrow> name (h' ! a) = name (h ! a)"
  by (auto simp: ext_def)

subsection \<open>Computations and loops\<close>

lemma bnd_Inr:
  "bnd m f = Some (Inr y) \<longleftrightarrow> (\<exists>x. m = Some (Inr x) \<and> f x = Some (Inr y))"
  by (auto simp: bnd_def split: option.splits sum.splits)

lemma ret_Inr [simp]: "ret x = Some (Inr y) \<longleftrightarrow> x = y"
  by (simp add: ret_def)

lemma throw_Inr [simp]: "throw e \<noteq> Some (Inr y)"
  by (simp add: throw_def)

lemma lift_option_Inr [simp]: "lift_option m = Some (Inr y) \<longleftrightarrow> m = Some y"
  by (cases m) (auto simp: lift_option_def)

lemma ofold_inv:
  assumes "ofold f xs s = Some s'" and "I s"
    and "\<And>x s s'. x \<in> set xs \<Longrightarrow> I s \<Longrightarrow> f x s = Some s' \<Longrightarrow> I s'"
  shows "I s'"
  using assms
proof (induction xs arbitrary: s)
  case Nil
  then show ?case by simp
next
  case (Cons x xs)
  from Cons.prems(1) obtain s1 where s1: "f x s = Some s1" "ofold f xs s1 = Some s'"
    by (auto split: option.splits)
  have "I s1" using Cons.prems(3) [of x s s1] Cons.prems(2) s1(1) by simp
  then show ?case
    by (rule Cons.IH [OF s1(2)]) (use Cons.prems(3) in auto)
qed

lemma cfold_inv:
  assumes "cfold f xs s = Some (Inr s')" and "I s"
    and "\<And>x s s'. x \<in> set xs \<Longrightarrow> I s \<Longrightarrow> f x s = Some (Inr s') \<Longrightarrow> I s'"
  shows "I s'"
  using assms
proof (induction xs arbitrary: s)
  case Nil
  then show ?case by simp
next
  case (Cons x xs)
  from Cons.prems(1) obtain s1 where s1: "f x s = Some (Inr s1)" "cfold f xs s1 = Some (Inr s')"
    by (auto simp: bnd_Inr)
  have "I s1" using Cons.prems(3) [of x s s1] Cons.prems(2) s1(1) by simp
  then show ?case
    by (rule Cons.IH [OF s1(2)]) (use Cons.prems(3) in auto)
qed

subsection \<open>Entries of a map\<close>

lemma jm_entries_set: "set (jm_entries (jm_set m k v)) \<subseteq> insert (k, v) (set (jm_entries m))"
  by (induction m k v rule: jm_set.induct) auto

lemma jm_keys_set: "set (jm_keys (jm_set m k v)) = insert k (set (jm_keys m))"
  by (induction m k v rule: jm_set.induct) (auto simp: jm_keys_def)

lemma jm_entries_set_other:
  "(k', v') \<in> set (jm_entries (jm_set m k v)) \<Longrightarrow> k' \<noteq> k \<Longrightarrow> (k', v') \<in> set (jm_entries m)"
  by (induction m k v rule: jm_set.induct) (auto split: if_splits)

lemma distinct_jm_set: "distinct (jm_keys m) \<Longrightarrow> distinct (jm_keys (jm_set m k v))"
proof (induction m k v rule: jm_set.induct)
  case (3 k' v' m k v)
  then show ?case
    using jm_keys_set [of m k v] by (auto simp: jm_keys_def)
qed (auto simp: jm_keys_def)

lemma jm_entries_delete: "set (jm_entries (jm_delete m k)) \<subseteq> set (jm_entries m)"
  by (induction m k rule: jm_delete.induct) auto

lemma distinct_jm_delete: "distinct (jm_keys m) \<Longrightarrow> distinct (jm_keys (jm_delete m k))"
proof (induction m k rule: jm_delete.induct)
  case (3 k' v' m k)
  then show ?case
    using jm_entries_delete [of m k] by (auto simp: jm_keys_def)
qed (auto simp: jm_keys_def)

lemma jm_entries_copy [simp]: "jm_entries (jm_copy m) = jm_entries m"
proof -
  have "jm_entries (map Some xs) = xs" for xs :: "('a \<times> 'b) list"
    by (induction xs) simp_all
  then show ?thesis by (simp add: jm_copy_def)
qed

lemma jm_keys_copy [simp]: "jm_keys (jm_copy m) = jm_keys m"
  by (simp add: jm_keys_def)

lemma jm_get_entries: "jm_get m k = Some v \<Longrightarrow> (k, v) \<in> set (jm_entries m)"
  by (simp add: jm_get_def map_of_SomeD)

lemma jm_get_values: "jm_get m k = Some v \<Longrightarrow> v \<in> set (jm_values m)"
  by (force simp: jm_values_def dest: jm_get_entries)

lemma jm_nth_entries: "i < length m \<Longrightarrow> m ! i = Some e \<Longrightarrow> e \<in> set (jm_entries m)"
proof (induction m arbitrary: i)
  case Nil
  then show ?case by simp
next
  case (Cons x m)
  then show ?case by (cases i; cases x) auto
qed

subsection \<open>Well-formed nodes and stores\<close>

lemma wf_node_ext: "wf_node h nd \<Longrightarrow> ext h h' \<Longrightarrow> wf_node h' nd"
  by (fastforce simp: wf_node_def ext_def)

lemma wf_node_entry:
  "wf_node h nd \<Longrightarrow> (k, b) \<in> set (jm_entries (dependencies nd)) \<Longrightarrow> b < length h \<and> name (h ! b) = k"
  by (auto simp: wf_node_def)

lemma wf_node_value:
  "wf_node h nd \<Longrightarrow> b \<in> set (jm_values (dependencies nd)) \<Longrightarrow> b < length h"
  by (auto simp: wf_node_def jm_values_def)

lemma wf_node_set:
  assumes "wf_node h nd" "b < length h" "name (h ! b) = k"
  shows "wf_node h (nd\<lparr>dependencies := jm_set (dependencies nd) k b\<rparr>)"
  using assms jm_entries_set [of "dependencies nd" k b]
  by (auto simp: wf_node_def distinct_jm_set)

lemma wf_node_delete:
  assumes "wf_node h nd"
  shows "wf_node h (nd\<lparr>dependencies := jm_delete (dependencies nd) k\<rparr>)"
  using assms jm_entries_delete [of "dependencies nd" k]
  by (auto simp: wf_node_def distinct_jm_delete)

lemma wf_node_cong: "dependencies nd' = dependencies nd \<Longrightarrow> wf_node h nd' = wf_node h nd"
  by (simp add: wf_node_def)

lemma ext_update: "a < length h \<Longrightarrow> name nd = name (h ! a) \<Longrightarrow> ext h (h[a := nd])"
  by (auto simp: ext_def nth_list_update)

lemma ext_append: "ext h (h @ xs)"
  by (auto simp: ext_def nth_append)

lemma wf_heap_update:
  assumes "wf_heap h" "a < length h" "wf_node h nd" "name nd = name (h ! a)"
  shows "wf_heap (h[a := nd])"
  unfolding wf_heap_def
proof (intro allI impI)
  fix b assume b: "b < length (h[a := nd])"
  have e: "ext h (h[a := nd])" using assms(2,4) by (rule ext_update)
  show "wf_node (h[a := nd]) (h[a := nd] ! b)"
  proof (cases "b = a")
    case True
    with assms(2) wf_node_ext [OF assms(3) e] show ?thesis by simp
  next
    case False
    with b assms(1) have "wf_node h (h ! b)" by (simp add: wf_heap_def)
    from wf_node_ext [OF this e] False show ?thesis by simp
  qed
qed

lemma wf_heap_append:
  assumes "wf_heap h" "wf_node (h @ [nd]) nd"
  shows "wf_heap (h @ [nd])"
  unfolding wf_heap_def
proof (intro allI impI)
  fix b assume b: "b < length (h @ [nd])"
  show "wf_node (h @ [nd]) ((h @ [nd]) ! b)"
  proof (cases "b < length h")
    case True
    with assms(1) have "wf_node h (h ! b)" by (simp add: wf_heap_def)
    from wf_node_ext [OF this ext_append] True show ?thesis by (simp add: nth_append)
  next
    case False
    with b have "b = length h" by simp
    with assms(2) show ?thesis by simp
  qed
qed

lemma wf_heap_node: "wf_heap h \<Longrightarrow> a < length h \<Longrightarrow> wf_node h (h ! a)"
  by (simp add: wf_heap_def)

subsection \<open>Decoupling and hoisting one node\<close>

lemma wf_node_deps_set:
  assumes "wf_node h nd" "dependencies nd' = jm_set (dependencies nd) k b" "b < length h"
    "name (h ! b) = k"
  shows "wf_node h nd'"
  using assms jm_entries_set [of "dependencies nd" k b]
  by (auto simp: wf_node_def distinct_jm_set)

lemma wf_node_deps_delete:
  assumes "wf_node h nd" "dependencies nd' = jm_delete (dependencies nd) k"
  shows "wf_node h nd'"
  using assms jm_entries_delete [of "dependencies nd" k]
  by (auto simp: wf_node_def distinct_jm_delete)

lemma wf_node_deps_copy:
  assumes "wf_node h nd" "dependencies nd' = jm_copy (dependencies nd)"
  shows "wf_node h nd'"
  using assms by (auto simp: wf_node_def)

lemma set_dependency_wf:
  assumes "wf_heap h" "parent < length h" "b < length h" "name (h ! b) = k"
  shows "wf_heap (set_dependency h parent k b) \<and> ext h (set_dependency h parent k b)
         \<and> length (set_dependency h parent k b) = length h"
proof -
  let ?nd = "(h ! parent)\<lparr>dependencies := jm_set (dependencies (h ! parent)) k b\<rparr>"
  have "wf_node h ?nd"
    by (rule wf_node_deps_set [OF wf_heap_node [OF assms(1,2)] _ assms(3,4)]) simp
  from wf_heap_update [OF assms(1,2) this] ext_update [OF assms(2), of ?nd]
  show ?thesis by (simp add: set_dependency_def)
qed

lemma decoupleGraphNode_wf:
  assumes wf: "wf_heap h" and p: "parent < length h" and n: "node < length h"
    and d: "decoupleGraphNode h parent node = (h', c)"
  shows "wf_heap h' \<and> ext h h' \<and> c < length h' \<and> name (h' ! c) = name (h ! node)"
proof (cases "decoupled (h ! node)")
  case True
  with d wf n show ?thesis by (simp add: decoupleGraphNode_def)
next
  case False
  define nd where "nd = h ! node"
  define clone0 where "clone0 = \<lparr>name = name nd, references = references nd, ident = ident nd,
                      locator = locator nd, dependencies = jm_copy (dependencies nd),
                      originalDependencies = jm_copy (originalDependencies nd),
                      hoistedDependencies = jm_copy (hoistedDependencies nd),
                      peerNames = peerNames nd, decoupled = True,
                      reasons = jm_copy (reasons nd)\<rparr>"
  define clone where "clone = (case jm_get (dependencies clone0) (name nd) of
                 Some selfDep \<Rightarrow>
                   if ident (h ! selfDep) = ident clone0
                   then clone0\<lparr>dependencies := jm_set (dependencies clone0) (name nd) (length h)\<rparr>
                   else clone0
               | None \<Rightarrow> clone0)"
  from d False have "(set_dependency (h @ [clone]) parent (name clone) (length h), length h) = (h', c)"
    unfolding decoupleGraphNode_def Let_def clone_def clone0_def nd_def
    by (simp only: if_False)
  then have res: "h' = set_dependency (h @ [clone]) parent (name clone) (length h)" "c = length h"
    by auto
  have cname: "name clone = name nd"
    by (auto simp: clone_def clone0_def split: option.splits)
  have wnd: "wf_node h nd" using wf n by (simp add: nd_def wf_heap_node)
  have e1: "ext h (h @ [clone])" by (rule ext_append)
  have w0: "wf_node (h @ [clone]) clone0"
    by (rule wf_node_deps_copy [OF wf_node_ext [OF wnd e1]]) (simp add: clone0_def)
  have wc: "wf_node (h @ [clone]) clone"
  proof (cases "clone = clone0")
    case True
    with w0 show ?thesis by simp
  next
    case False
    then have "dependencies clone = jm_set (dependencies clone0) (name nd) (length h)"
      by (auto simp: clone_def split: option.splits if_splits)
    then show ?thesis
      by (rule wf_node_deps_set [OF w0]) (simp_all add: cname)
  qed
  have w1: "wf_heap (h @ [clone])" by (rule wf_heap_append [OF wf wc])
  have "wf_heap h' \<and> ext (h @ [clone]) h' \<and> length h' = length (h @ [clone])"
    unfolding res
    by (rule set_dependency_wf [OF w1]) (use p in \<open>simp_all add: cname\<close>)
  then have "wf_heap h'" "ext (h @ [clone]) h'" "length h' = Suc (length h)" by simp_all
  moreover from ext_trans [OF e1 this(2)] have "ext h h'" .
  moreover have "name (h' ! c) = name (h ! node)"
    using ext_name [OF \<open>ext (h @ [clone]) h'\<close>, of "length h"] res(2) cname
    by (simp add: nd_def)
  ultimately show ?thesis using res(2) by simp
qed

lemma hoist_node_wf:
  assumes wf: "wf_heap h" and r: "rootNode < length h" and p: "parentNode < length h"
    and n: "node < length h" and nn: "\<forall>a \<in> set newNodes. a < length h"
    and res: "hoist_node rootNode parentNode unhoistableNodes node (h, newNodes) = (h', newNodes')"
  shows "wf_heap h' \<and> ext h h' \<and> length h' = length h \<and> (\<forall>a \<in> set newNodes'. a < length h')"
proof (cases "node \<in> set unhoistableNodes")
  case True
  with res wf nn show ?thesis by (simp add: hoist_node_def)
next
  case False
  define nm where "nm = name (h ! node)"
  define pn where "pn = (h ! parentNode)\<lparr>dependencies := jm_delete (dependencies (h ! parentNode)) nm,
                       hoistedDependencies := jm_set (hoistedDependencies (h ! parentNode)) nm node,
                       reasons := jm_delete (reasons (h ! parentNode)) nm\<rparr>"
  define h1 where "h1 = h[parentNode := pn]"
  have wpn: "wf_node h pn"
    by (rule wf_node_deps_delete [OF wf_heap_node [OF wf p]]) (simp add: pn_def)
  have w1: "wf_heap h1" unfolding h1_def
    by (rule wf_heap_update [OF wf p wpn]) (simp add: pn_def)
  have e1: "ext h h1" unfolding h1_def by (rule ext_update [OF p]) (simp add: pn_def)
  have l1: "length h1 = length h" by (simp add: h1_def)
  have nm1: "name (h1 ! node) = nm" using ext_name [OF e1 n] by (simp add: nm_def)
  show ?thesis
  proof (cases "jm_get (dependencies (h1 ! rootNode)) nm")
    case None
    show ?thesis
    proof (cases "ident (h1 ! rootNode) \<noteq> ident (h1 ! node)")
      case True
      with None False res have r': "h' = set_dependency h1 rootNode nm node"
        "newNodes' = js_add newNodes node"
        by (simp_all add: hoist_node_def Let_def nm_def pn_def h1_def)
      from set_dependency_wf [OF w1, of rootNode node nm] r n l1 nm1
      have "wf_heap h'" "ext h1 h'" "length h' = length h1" by (simp_all add: r')
      with ext_trans [OF e1 this(2)] l1 nn n r'(2) show ?thesis by (auto simp: js_add_def)
    next
      case False': False
      with None False res have "h' = h1" "newNodes' = newNodes"
        by (simp_all add: hoist_node_def Let_def nm_def pn_def h1_def)
      with w1 e1 l1 nn show ?thesis by simp
    qed
  next
    case (Some hoistedNode)
    define hn where "hn = (h1 ! hoistedNode)
                        \<lparr>references := fold (\<lambda>reference rs. js_add rs reference)
                                         (references (h1 ! node)) (references (h1 ! hoistedNode))\<rparr>"
    from Some False res have r': "h' = h1[hoistedNode := hn]" "newNodes' = newNodes"
      by (simp_all add: hoist_node_def Let_def nm_def pn_def h1_def hn_def)
    have v: "hoistedNode < length h1"
      using wf_node_entry [OF wf_heap_node [OF w1] jm_get_entries [OF Some]] r l1 by simp
    have "wf_node h1 hn"
      using wf_heap_node [OF w1 v] by (simp add: wf_node_def hn_def)
    from wf_heap_update [OF w1 v this] ext_update [OF v, of hn]
    have "wf_heap h'" "ext h1 h'" by (simp_all add: r' hn_def)
    with ext_trans [OF e1 this(2)] l1 nn r' show ?thesis by simp
  qed
qed

subsection \<open>Sorted dependencies and unhoistable nodes\<close>

lemma addDep_subset:
  assumes V: "\<forall>p v. jm_get (dependencies nd) p = Some v \<longrightarrow> v \<in> V"
  shows "addDep n h nd dep (seen, deps) = Some (seen', deps') \<Longrightarrow> dep \<in> V \<Longrightarrow> set deps \<subseteq> V
    \<Longrightarrow> set deps' \<subseteq> V"
proof (induction n arbitrary: dep seen deps seen' deps')
  case 0
  then show ?case by simp
next
  case (Suc n)
  show ?case
  proof (cases "dep \<in> set seen")
    case True
    with Suc.prems show ?thesis by simp
  next
    case False
    define F where "F = (\<lambda>peerName (s, d).
               if peerName \<notin> set (peerNames nd) then
                 (case jm_get (dependencies nd) peerName of
                    Some peerDep \<Rightarrow>
                      if peerDep \<notin> set d then addDep n h nd peerDep (s, d) else Some (s, d)
                  | None \<Rightarrow> Some (s, d))
               else Some (s, d))"
    from Suc.prems(1) False obtain s1 d1 where
      l: "ofold F (peerNames (h ! dep)) (js_add seen dep, deps) = Some (s1, d1)"
      and r: "deps' = js_add d1 dep"
      by (auto simp: F_def)
    have "case (s1, d1) of (s, d) \<Rightarrow> set d \<subseteq> V"
    proof (rule ofold_inv [OF l])
      show "case (js_add seen dep, deps) of (s, d) \<Rightarrow> set d \<subseteq> V" using Suc.prems(3) by simp
    next
      fix x st st'
      assume I: "case st of (s, d) \<Rightarrow> set d \<subseteq> V" and st: "F x st = Some st'"
      obtain s d where sd: "st = (s, d)" by (cases st)
      obtain s' d' where sd': "st' = (s', d')" by (cases st')
      from I sd have dV: "set d \<subseteq> V" by simp
      from st sd sd' dV V Suc.IH show "case st' of (s, d) \<Rightarrow> set d \<subseteq> V"
        by (auto simp: F_def split: if_splits option.splits)
    qed
    with r Suc.prems(2) show ?thesis by (auto simp: js_add_def)
  qed
qed

lemma getSorted_subset:
  assumes "getSortedRegularDependencies n h N = Some ds"
  shows "set ds \<subseteq> set (jm_values (dependencies (h ! N)))"
proof -
  let ?V = "set (jm_values (dependencies (h ! N)))"
  have V: "\<forall>p v. jm_get (dependencies (h ! N)) p = Some v \<longrightarrow> v \<in> ?V"
    by (auto dest: jm_get_values)
  show ?thesis
  proof (rule ofold_inv [OF assms [unfolded getSortedRegularDependencies_def], of "\<lambda>ds. set ds \<subseteq> ?V"])
    show "set [] \<subseteq> ?V" by simp
  next
    fix x s s'
    assume "x \<in> ?V" "set s \<subseteq> ?V"
      and "(if name (h ! x) \<notin> set (peerNames (h ! N))
           then map_option snd (addDep n h (h ! N) x ([], s)) else Some s) = Some s'"
    then show "set s' \<subseteq> ?V"
      using addDep_subset [OF V, of n h x "[]" s _ s']
      by (auto split: if_splits)
  qed
qed

lemma getSorted_valid:
  assumes "getSortedRegularDependencies n h N = Some ds" "wf_heap h" "N < length h"
  shows "\<forall>a \<in> set ds. a < length h"
  using getSorted_subset [OF assms(1)] wf_node_value [OF wf_heap_node [OF assms(2,3)]]
  by blast

lemma collect_keys:
  assumes "cfold (collect_hoistInfo h rnp path hdeps hi him oR) xs (his0, dt0) = Some (Inr (his, dt))"
    and "set (jm_keys his0) \<subseteq> V" "set xs \<subseteq> V"
  shows "set (jm_keys his) \<subseteq> V"
proof -
  have "case (his, dt) of (a, b) \<Rightarrow> set (jm_keys a) \<subseteq> V"
  proof (rule cfold_inv [OF assms(1)])
    show "case (his0, dt0) of (a, b) \<Rightarrow> set (jm_keys a) \<subseteq> V" using assms(2) by simp
  next
    fix x st st'
    assume "x \<in> set xs" "case st of (a, b) \<Rightarrow> set (jm_keys a) \<subseteq> V"
      "collect_hoistInfo h rnp path hdeps hi him oR x st = Some (Inr st')"
    with assms(3) show "case st' of (a, b) \<Rightarrow> set (jm_keys a) \<subseteq> V"
      by (auto simp: collect_hoistInfo_def jm_keys_set split: prod.splits sum.splits)
  qed
  then show ?thesis by simp
qed

lemma addUnhoistableNode_valid:
  assumes V: "\<forall>k v. jm_get (dependencies (h ! P)) k = Some v \<longrightarrow> v \<in> V"
  shows "addUnhoistableNode n h P dt node info (unh, his) = Some (Inr (unh', his'))
    \<Longrightarrow> node \<in> V \<Longrightarrow> set unh \<subseteq> V \<Longrightarrow> set (jm_keys his) \<subseteq> V
    \<Longrightarrow> set unh' \<subseteq> V \<and> set (jm_keys his') \<subseteq> V"
proof (induction n arbitrary: node unh his unh' his')
  case 0
  then show ?case by simp
next
  case (Suc n)
  show ?case
  proof (cases "node \<in> set unh")
    case True
    with Suc.prems show ?thesis by simp
  next
    case False
    define F where "F = (\<lambda>dependantName st.
             case jm_get (dependencies (h ! P)) dependantName of
               None \<Rightarrow> throw TypeError
             | Some dependant \<Rightarrow> addUnhoistableNode n h P dt dependant info st)"
    from Suc.prems(1) False have
      l: "cfold F (case jm_get dt (name (h ! node)) of None \<Rightarrow> [] | Some ds \<Rightarrow> ds)
            (js_add unh node, jm_set his node info) = Some (Inr (unh', his'))"
      by (simp add: F_def)
    have "case (unh', his') of (u, i) \<Rightarrow> set u \<subseteq> V \<and> set (jm_keys i) \<subseteq> V"
    proof (rule cfold_inv [OF l])
      show "case (js_add unh node, jm_set his node info) of
              (u, i) \<Rightarrow> set u \<subseteq> V \<and> set (jm_keys i) \<subseteq> V"
        using Suc.prems(2,3,4) by (auto simp: js_add_def jm_keys_set)
    next
      fix x st st'
      assume I: "case st of (u, i) \<Rightarrow> set u \<subseteq> V \<and> set (jm_keys i) \<subseteq> V"
        and st: "F x st = Some (Inr st')"
      obtain u i where ui: "st = (u, i)" by (cases st)
      obtain u' i' where ui': "st' = (u', i')" by (cases st')
      from st ui ui' obtain d where d: "jm_get (dependencies (h ! P)) x = Some d"
        "addUnhoistableNode n h P dt d info (u, i) = Some (Inr (u', i'))"
        by (auto simp: F_def split: option.splits)
      from V d(1) have "d \<in> V" by blast
      from Suc.IH [OF d(2) this] I ui ui'
      show "case st' of (u, i) \<Rightarrow> set u \<subseteq> V \<and> set (jm_keys i) \<subseteq> V" by simp
    qed
    then show ?thesis by simp
  qed
qed

lemma mark_unhoistable_valid:
  assumes V: "\<forall>k v. jm_get (dependencies (h ! P)) k = Some v \<longrightarrow> v \<in> V"
  shows "mark_unhoistable n h P dt i (unh, his) = Some (Inr (unh', his'))
    \<Longrightarrow> set unh \<subseteq> V \<Longrightarrow> set (jm_keys his) \<subseteq> V
    \<Longrightarrow> set unh' \<subseteq> V \<and> set (jm_keys his') \<subseteq> V"
proof (induction n arbitrary: i unh his)
  case 0
  then show ?case by simp
next
  case (Suc n)
  show ?case
  proof (cases "length his \<le> i")
    case True
    with Suc.prems show ?thesis by simp
  next
    case False
    show ?thesis
    proof (cases "\<exists>node reason. his ! i = Some (node, NO reason)")
      case True
      then obtain node reason where e: "his ! i = Some (node, NO reason)" by blast
      with Suc.prems(1) False obtain u1 i1 where
        a: "addUnhoistableNode n h P dt node (NO reason) (unh, his) = Some (Inr (u1, i1))"
        and m: "mark_unhoistable n h P dt (Suc i) (u1, i1) = Some (Inr (unh', his'))"
        by (auto simp: bnd_Inr)
      from jm_nth_entries [OF _ e] False have "node \<in> set (jm_keys his)"
        by (force simp: jm_keys_def)
      with Suc.prems(3) have "node \<in> V" by blast
      from addUnhoistableNode_valid [OF V a this Suc.prems(2,3)]
      have "set u1 \<subseteq> V" "set (jm_keys i1) \<subseteq> V" by simp_all
      from Suc.IH [OF m this] show ?thesis .
    next
      case F2: False
      with Suc.prems(1) False have
        "mark_unhoistable n h P dt (Suc i) (unh, his) = Some (Inr (unh', his'))"
        by (auto split: option.splits prod.splits HoistInfo.splits)
      from Suc.IH [OF this Suc.prems(2,3)] show ?thesis .
    qed
  qed
qed

lemma fold_hoist_node_wf:
  "fold (hoist_node R P unh) ks (h, nn) = (h', nn') \<Longrightarrow> wf_heap h \<Longrightarrow> R < length h
    \<Longrightarrow> P < length h \<Longrightarrow> \<forall>a \<in> set ks. a < length h \<Longrightarrow> \<forall>a \<in> set nn. a < length h
    \<Longrightarrow> wf_heap h' \<and> ext h h' \<and> length h' = length h \<and> (\<forall>a \<in> set nn'. a < length h')"
proof (induction ks arbitrary: h nn)
  case Nil
  then show ?case by simp
next
  case (Cons k ks)
  obtain h1 nn1 where s: "hoist_node R P unh k (h, nn) = (h1, nn1)"
    by (cases "hoist_node R P unh k (h, nn)")
  from hoist_node_wf [OF Cons.prems(2,3,4) _ Cons.prems(6) s] Cons.prems(5)
  have 1: "wf_heap h1" "ext h h1" "length h1 = length h" "\<forall>a \<in> set nn1. a < length h1"
    by auto
  from Cons.prems(1) s have "fold (hoist_node R P unh) ks (h1, nn1) = (h', nn')" by simp
  from Cons.IH [OF this 1(1)] Cons.prems(3,4,5) 1
  have 2: "wf_heap h'" "ext h1 h'" "length h' = length h1" "\<forall>a \<in> set nn'. a < length h'"
    by auto
  from ext_trans [OF 1(2) 2(2)] 1(3) 2 show ?case by simp
qed

subsection \<open>One pass over the work tree\<close>

lemma state_ok_I:
  "wf_heap h \<Longrightarrow> ext h0 h \<Longrightarrow> \<forall>a \<in> set nn. a < length h \<Longrightarrow> state_ok h0 (h, s, nn)"
  by (simp add: state_ok_def)

lemma reasons_update_wf:
  assumes "wf_heap h" "P < length h"
  shows "wf_heap (h[P := (h ! P)\<lparr>reasons := r\<rparr>]) \<and> ext h (h[P := (h ! P)\<lparr>reasons := r\<rparr>])"
proof -
  have "wf_node h ((h ! P)\<lparr>reasons := r\<rparr>)"
    using wf_heap_node [OF assms] by (simp add: wf_node_def)
  from wf_heap_update [OF assms this] ext_update [OF assms(2), of "(h ! P)\<lparr>reasons := r\<rparr>"]
  show ?thesis by simp
qed

lemma case_prod_Inr:
  "(case p of (a, b) \<Rightarrow> f a b) = Some (Inr y) \<longleftrightarrow> (\<exists>a b. p = (a, b) \<and> f a b = Some (Inr y))"
  by (cases p) simp

lemma hoistNodeDependencies_wf:
  "hoistNodeDependencies n options tree R rnp hdeps hi him nodePath locatorPath P (h, seen, nn)
     = Some (Inr st')
   \<Longrightarrow> wf_heap h \<Longrightarrow> R < length h \<Longrightarrow> P < length h \<Longrightarrow> \<forall>a \<in> set nn. a < length h
   \<Longrightarrow> state_ok h st'"
proof (induction n arbitrary: nodePath locatorPath P h seen nn st')
  case 0
  then show ?case by simp
next
  case (Suc n)
  show ?case
  proof (cases "P \<in> set seen")
    case True
    with Suc.prems show ?thesis by (auto simp: state_ok_def)
  next
    case False
    define step where "step = (\<lambda>unhoistableNodes hoistInfos node (h2, seenNodes2, nextNewNodes2).
             if node \<in> set unhoistableNodes \<and> locator (h2 ! node) \<notin> set locatorPath then
               (case jm_get hoistInfos node of
                  None \<Rightarrow> throw TypeError
                | Some hoistInfo \<Rightarrow>
                    (let h3 =
                           (case hoistInfo of
                              NO reason \<Rightarrow>
                                h2[P := (h2 ! P)
                                     \<lparr>reasons := jm_set (reasons (h2 ! P))
                                                   (name (h2 ! node)) reason\<rparr>]
                            | _ \<Rightarrow> h2)
                     in case decoupleGraphNode h3 P node of
                          (h4, decoupledNode) \<Rightarrow>
                            bnd (hoistNodeDependencies n options tree R rnp
                                   hdeps hi him (nodePath @ [P])
                                   (locatorPath @ [locator (h4 ! P)]) decoupledNode
                                   (h4, js_add seenNodes2 P, nextNewNodes2))
                              (\<lambda>(h5, seenNodes5, nextNewNodes5).
                                 ret (h5, js_delete seenNodes5 P, nextNewNodes5))))
             else ret (h2, seenNodes2, nextNewNodes2))"
    from Suc.prems(1) False obtain sorted his0 dt unh his h1 nn1 children where
      a: "getSortedRegularDependencies n h P = Some sorted"
      and b: "cfold (collect_hoistInfo h rnp (nodePath @ [P]) hdeps hi him (2 \<le> idebugLevel options))
               sorted ([], []) = Some (Inr (his0, dt))"
      and c: "mark_unhoistable n h P dt 0 ([], his0) = Some (Inr (unh, his))"
      and d: "fold (hoist_node R P unh) (jm_keys his) (h, nn) = (h1, nn1)"
      and e: "getSortedRegularDependencies n h1 P = Some children"
      and f: "cfold (step unh his) children (h1, seen, nn1) = Some (Inr st')"
      unfolding step_def
      by (auto simp: bnd_Inr case_prod_Inr)
    let ?V = "{a. a < length h}"
    have V: "\<forall>k v. jm_get (dependencies (h ! P)) k = Some v \<longrightarrow> v \<in> ?V"
      using wf_node_value [OF wf_heap_node [OF Suc.prems(2,4)]] jm_get_values by fastforce
    from getSorted_valid [OF a Suc.prems(2,4)] have "set sorted \<subseteq> ?V" by auto
    from collect_keys [OF b _ this] have "set (jm_keys his0) \<subseteq> ?V" by (simp add: jm_keys_def)
    from mark_unhoistable_valid [OF V c _ this] have uv: "set (jm_keys his) \<subseteq> ?V" by simp
    from fold_hoist_node_wf [OF d Suc.prems(2,3,4) _ Suc.prems(5)] uv
    have 1: "wf_heap h1" "ext h h1" "length h1 = length h" "\<forall>a \<in> set nn1. a < length h1"
      by auto
    have P1: "P < length h1" "R < length h1" using 1(3) Suc.prems(3,4) by simp_all
    from getSorted_valid [OF e 1(1) P1(1)] have cv: "\<forall>a \<in> set children. a < length h1" .
    have "state_ok h1 st'"
    proof (rule cfold_inv [OF f])
      show "state_ok h1 (h1, seen, nn1)" using 1 by (simp add: state_ok_def)
    next
      fix x st st1
      assume x: "x \<in> set children" and I: "state_ok h1 st"
        and s: "step unh his x st = Some (Inr st1)"
      obtain h2 s2 n2 where st: "st = (h2, s2, n2)" by (cases st)
      from I st have 2: "wf_heap h2" "ext h1 h2" "\<forall>a \<in> set n2. a < length h2"
        by (simp_all add: state_ok_def)
      have v2: "x < length h2" "P < length h2" "R < length h2"
        using cv x P1 ext_valid [OF 2(2)] by auto
      show "state_ok h1 st1"
      proof (cases "x \<in> set unh \<and> locator (h2 ! x) \<notin> set locatorPath")
        case False
        with s st I show ?thesis by (auto simp: step_def)
      next
        case True
        define h3 where "h3 = (\<lambda>hoistInfo. case hoistInfo of
                              NO reason \<Rightarrow>
                                h2[P := (h2 ! P)
                                     \<lparr>reasons := jm_set (reasons (h2 ! P))
                                                   (name (h2 ! x)) reason\<rparr>]
                            | _ \<Rightarrow> h2)"
        from s st True obtain info h4 dn h5 s5 n5 where
          i: "jm_get his x = Some info"
          and dc: "decoupleGraphNode (h3 info) P x = (h4, dn)"
          and rc: "hoistNodeDependencies n options tree R rnp hdeps hi him (nodePath @ [P])
                     (locatorPath @ [locator (h4 ! P)]) dn (h4, js_add s2 P, n2)
                   = Some (Inr (h5, s5, n5))"
          and r: "st1 = (h5, js_delete s5 P, n5)"
          unfolding step_def h3_def
          by (auto simp: bnd_Inr case_prod_Inr Let_def split: option.splits)
        have 3: "wf_heap (h3 info) \<and> ext h2 (h3 info)"
          using reasons_update_wf [OF 2(1) v2(2)] 2(1)
          by (cases info) (auto simp: h3_def)
        then have v3: "P < length (h3 info)" "x < length (h3 info)"
          using v2 ext_valid by blast+
        from decoupleGraphNode_wf [OF _ v3 dc] 3
        have 4: "wf_heap h4" "ext (h3 info) h4" "dn < length h4" by simp_all
        have e24: "ext h2 h4" using 3 4(2) ext_trans by blast
        have v4: "R < length h4" "\<forall>a \<in> set n2. a < length h4"
          using v2(3) 2(3) ext_valid [OF e24] by auto
        from Suc.IH [OF rc 4(1) v4(1) 4(3) v4(2)]
        have 5: "wf_heap h5" "ext h4 h5" "\<forall>a \<in> set n5. a < length h5"
          by (simp_all add: state_ok_def)
        have "ext h1 h5" using 2(2) e24 5(2) ext_trans by blast
        with 5 r show ?thesis by (simp add: state_ok_def)
      qed
    qed
    then show ?thesis using 1(2) by (auto simp: state_ok_def intro: ext_trans)
  qed
qed

subsection \<open>The hoisting rounds\<close>

lemma hoistGraph_rounds_wf:
  "hoistGraph_rounds n options tree R rnp hdeps hi him newNodes (h, seen) = Some (Inr (h', seen'))
   \<Longrightarrow> wf_heap h \<Longrightarrow> R < length h \<Longrightarrow> \<forall>a \<in> set newNodes. a < length h
   \<Longrightarrow> wf_heap h' \<and> ext h h'"
proof (induction n arbitrary: newNodes h seen)
  case 0
  then show ?case by simp
next
  case (Suc n)
  define step where "step = (\<lambda>dep (h1, seenNodes1, nextNewNodes1).
               if locator (h1 ! dep) = locator (h1 ! R) then ret (h1, seenNodes1, nextNewNodes1)
               else
                 (case decoupleGraphNode h1 R dep of
                    (h2, decoupledDependency) \<Rightarrow>
                      hoistNodeDependencies n options tree R rnp hdeps
                        hi him [R] [locator (h2 ! R)]
                        decoupledDependency (h2, seenNodes1, nextNewNodes1)))"
  from Suc.prems(1) obtain h1 s1 n1 where
    f: "cfold step newNodes (h, seen, []) = Some (Inr (h1, s1, n1))"
    and r: "(if n1 \<noteq> [] then hoistGraph_rounds n options tree R rnp hdeps hi him n1 (h1, s1)
             else ret (h1, s1)) = Some (Inr (h', seen'))"
    unfolding step_def by (auto simp: bnd_Inr case_prod_Inr)
  have "state_ok h (h1, s1, n1)"
  proof (rule cfold_inv [OF f])
    show "state_ok h (h, seen, [])" using Suc.prems(2) by (simp add: state_ok_def)
  next
    fix x st st1
    assume x: "x \<in> set newNodes" and I: "state_ok h st" and s: "step x st = Some (Inr st1)"
    obtain h2 s2 n2 where st: "st = (h2, s2, n2)" by (cases st)
    from I st have 2: "wf_heap h2" "ext h h2" "\<forall>a \<in> set n2. a < length h2"
      by (simp_all add: state_ok_def)
    have v2: "x < length h2" "R < length h2"
      using x Suc.prems(3,4) ext_valid [OF 2(2)] by auto
    show "state_ok h st1"
    proof (cases "locator (h2 ! x) = locator (h2 ! R)")
      case True
      with s st I show ?thesis by (simp add: step_def)
    next
      case False
      with s st obtain h3 dn where
        dc: "decoupleGraphNode h2 R x = (h3, dn)"
        and rc: "hoistNodeDependencies n options tree R rnp hdeps hi him [R] [locator (h3 ! R)] dn
                   (h3, s2, n2) = Some (Inr st1)"
        unfolding step_def by (auto simp: case_prod_Inr)
      from decoupleGraphNode_wf [OF 2(1) v2(2,1) dc]
      have 3: "wf_heap h3" "ext h2 h3" "dn < length h3" by simp_all
      have v3: "R < length h3" "\<forall>a \<in> set n2. a < length h3"
        using v2(2) 2(3) ext_valid [OF 3(2)] by auto
      from hoistNodeDependencies_wf [OF rc 3(1) v3(1) 3(3) v3(2)]
      have "state_ok h3 st1" .
      moreover have "ext h h3" using 2(2) 3(2) ext_trans by blast
      ultimately show ?thesis by (auto simp: state_ok_def intro: ext_trans)
    qed
  qed
  then have 1: "wf_heap h1" "ext h h1" "\<forall>a \<in> set n1. a < length h1"
    by (simp_all add: state_ok_def)
  show ?case
  proof (cases "n1 = []")
    case True
    with r 1 show ?thesis by simp
  next
    case False
    with r have "hoistGraph_rounds n options tree R rnp hdeps hi him n1 (h1, s1)
                   = Some (Inr (h', seen'))" by simp
    from Suc.IH [OF this 1(1) ext_valid [OF 1(2) Suc.prems(3)] 1(3)] 1(2)
    show ?thesis by (auto intro: ext_trans)
  qed
qed

lemma hoistGraph_wf:
  assumes "hoistGraph n options tree R rnp hdeps hi him h = Some (Inr h')"
    and "wf_heap h" "R < length h"
  shows "wf_heap h' \<and> ext h h'"
proof -
  from assms(1) obtain nn seen' where
    a: "getSortedRegularDependencies n h R = Some nn"
    and b: "hoistGraph_rounds n options tree R rnp hdeps hi him nn (h, []) = Some (Inr (h', seen'))"
    by (auto simp: hoistGraph_def bnd_Inr case_prod_Inr)
  from hoistGraph_rounds_wf [OF b assms(2,3) getSorted_valid [OF a assms(2,3)]]
  show ?thesis .
qed

lemma hoistTo_rounds_wf:
  "hoistTo_rounds n options tree R rnp hdeps (h, hi, him) = Some (Inr h')
   \<Longrightarrow> wf_heap h \<Longrightarrow> R < length h \<Longrightarrow> wf_heap h' \<and> ext h h'"
proof (induction n arbitrary: h hi him)
  case 0
  then show ?case by simp
next
  case (Suc n)
  from Suc.prems(1) obtain h1 hi1 him1 changed where
    a: "hoistGraph n options tree R rnp hdeps hi him h = Some (Inr h1)"
    and b: "(if changed then hoistTo_rounds n options tree R rnp hdeps (h1, hi1, him1)
             else ret h1) = Some (Inr h')"
    by (auto simp: bnd_Inr case_prod_Inr)
  from hoistGraph_wf [OF a Suc.prems(2,3)] have 1: "wf_heap h1" "ext h h1" by simp_all
  show ?case
  proof (cases changed)
    case True
    with b have "hoistTo_rounds n options tree R rnp hdeps (h1, hi1, him1) = Some (Inr h')"
      by simp
    from Suc.IH [OF this 1(1) ext_valid [OF 1(2) Suc.prems(3)]] 1(2)
    show ?thesis by (auto intro: ext_trans)
  next
    case False
    with b 1 show ?thesis by simp
  qed
qed

lemma hoistTo_wf:
  "(hoistTo n options tree R seen (h, rnp) = Some (Inr (h', rnp'))
      \<longrightarrow> wf_heap h \<longrightarrow> R < length h \<longrightarrow> wf_heap h' \<and> ext h h')
   \<and> (hoistTo_dependencies n options tree R i (h, rnp) = Some (Inr (h', rnp'))
      \<longrightarrow> wf_heap h \<longrightarrow> R < length h \<longrightarrow> wf_heap h' \<and> ext h h')"
proof (induction n arbitrary: R seen i h rnp h' rnp')
  case 0
  then show ?case by simp
next
  case (Suc n)
  have A: "wf_heap h' \<and> ext h h'"
    if r: "hoistTo (Suc n) options tree R seen (h, rnp) = Some (Inr (h', rnp'))"
      and w: "wf_heap h" "R < length h"
  proof (cases "R \<in> set seen")
    case True
    with r w show ?thesis by simp
  next
    case False
    with r obtain pm hdeps h1 where
      a: "hoistTo_rounds n options tree R rnp hdeps
            (h, initial_hoistIdents (getHoistIdentMap h R pm), getHoistIdentMap h R pm)
          = Some (Inr h1)"
      and b: "hoistTo_dependencies n options tree R 0 (h1, rnp) = Some (Inr (h', rnp'))"
      by (auto simp: bnd_Inr)
    from hoistTo_rounds_wf [OF a w] have 1: "wf_heap h1" "ext h h1" by simp_all
    from Suc.IH [of R _ h1 rnp h' rnp' 0] b 1 ext_valid [OF 1(2) w(2)]
    show ?thesis by (auto intro: ext_trans)
  qed
  have B: "wf_heap h' \<and> ext h h'"
    if r: "hoistTo_dependencies (Suc n) options tree R i (h, rnp) = Some (Inr (h', rnp'))"
      and w: "wf_heap h" "R < length h"
  proof (cases "length (dependencies (h ! R)) \<le> i")
    case True
    with r w show ?thesis by simp
  next
    case False
    show ?thesis
    proof (cases "dependencies (h ! R) ! i")
      case None
      with r False have "hoistTo_dependencies n options tree R (Suc i) (h, rnp)
                           = Some (Inr (h', rnp'))" by simp
      with Suc.IH [of R _ h rnp h' rnp' "Suc i"] w show ?thesis by simp
    next
      case (Some e)
      obtain k d where e: "e = (k, d)" by (cases e)
      show ?thesis
      proof (cases "name (h ! d) \<notin> set (peerNames (h ! R)) \<and> locator (h ! d) \<notin> set rnp")
        case F2: False
        with r False Some e have "hoistTo_dependencies n options tree R (Suc i) (h, rnp)
                           = Some (Inr (h', rnp'))" by auto
        with Suc.IH [of R _ h rnp h' rnp' "Suc i"] w show ?thesis by simp
      next
        case True
        with r False Some e obtain h1 rnp1 where
          a: "hoistTo n options tree d [] (h, js_add rnp (locator (h ! d))) = Some (Inr (h1, rnp1))"
          and b: "hoistTo_dependencies n options tree R (Suc i)
                    (h1, js_delete rnp1 (locator (h1 ! d))) = Some (Inr (h', rnp'))"
          by (auto simp: bnd_Inr case_prod_Inr)
        have "(k, d) \<in> set (jm_entries (dependencies (h ! R)))"
          using jm_nth_entries [of i "dependencies (h ! R)" e] False Some e by simp
        from wf_node_entry [OF wf_heap_node [OF w] this] have dv: "d < length h" by simp
        from Suc.IH [of d "[]" h "js_add rnp (locator (h ! d))" h1 rnp1] a w(1) dv
        have 1: "wf_heap h1" "ext h h1" by simp_all
        from Suc.IH [of R _ h1 "js_delete rnp1 (locator (h1 ! d))" h' rnp' "Suc i"] b 1
          ext_valid [OF 1(2) w(2)]
        show ?thesis by (auto intro: ext_trans)
      qed
    qed
  qed
  from A B show ?case by blast
qed

subsection \<open>The work tree built from the input\<close>

lemma seen_ok_ext: "seen_ok g h s \<Longrightarrow> ext h h' \<Longrightarrow> seen_ok g h' s"
  by (fastforce simp: seen_ok_def ext_def)

lemma markNodeCoupled_wf:
  "markNodeCoupled n node (h, sc) = Some (h', sc') \<Longrightarrow> wf_heap h \<Longrightarrow> node < length h
   \<Longrightarrow> wf_heap h' \<and> ext h h' \<and> length h' = length h"
proof (induction n arbitrary: node h sc h' sc')
  case 0
  then show ?case by simp
next
  case (Suc n)
  show ?case
  proof (cases "node \<in> set sc")
    case True
    with Suc.prems show ?thesis by simp
  next
    case False
    define h0 where "h0 = h[node := (h ! node)\<lparr>decoupled := False\<rparr>]"
    define F where "F = (\<lambda>dep (h1, seen1).
             if name (h1 ! dep) \<notin> set (peerNames (h1 ! node))
             then markNodeCoupled n dep (h1, seen1)
             else Some (h1, seen1))"
    from Suc.prems(1) False have
      l: "ofold F (jm_values (dependencies (h ! node))) (h0, js_add sc node) = Some (h', sc')"
      by (simp add: F_def h0_def)
    have "wf_node h ((h ! node)\<lparr>decoupled := False\<rparr>)"
      using wf_heap_node [OF Suc.prems(2,3)] by (simp add: wf_node_def)
    from wf_heap_update [OF Suc.prems(2,3) this]
      ext_update [OF Suc.prems(3), of "(h ! node)\<lparr>decoupled := False\<rparr>"]
    have 0: "wf_heap h0" "ext h h0" "length h0 = length h" by (simp_all add: h0_def)
    have "case (h', sc') of (h1, s1) \<Rightarrow> wf_heap h1 \<and> ext h h1 \<and> length h1 = length h"
    proof (rule ofold_inv [OF l])
      show "case (h0, js_add sc node) of (h1, s1) \<Rightarrow> wf_heap h1 \<and> ext h h1 \<and> length h1 = length h"
        using 0 by simp
    next
      fix x st st'
      assume x: "x \<in> set (jm_values (dependencies (h ! node)))"
        and I: "case st of (h1, s1) \<Rightarrow> wf_heap h1 \<and> ext h h1 \<and> length h1 = length h"
        and s: "F x st = Some st'"
      obtain h1 s1 where st: "st = (h1, s1)" by (cases st)
      obtain h2 s2 where st': "st' = (h2, s2)" by (cases st')
      from I st have 1: "wf_heap h1" "ext h h1" "length h1 = length h" by simp_all
      from wf_node_value [OF wf_heap_node [OF Suc.prems(2,3)] x] 1(3) have xv: "x < length h1"
        by simp
      show "case st' of (h1, s1) \<Rightarrow> wf_heap h1 \<and> ext h h1 \<and> length h1 = length h"
      proof (cases "name (h1 ! x) \<notin> set (peerNames (h1 ! node))")
        case True
        with s st st' have "markNodeCoupled n x (h1, s1) = Some (h2, s2)" by (simp add: F_def)
        from Suc.IH [OF this 1(1) xv] 1 st' show ?thesis by (auto intro: ext_trans)
      next
        case False
        with s st I show ?thesis by (auto simp: F_def)
      qed
    qed
    then show ?thesis by simp
  qed
qed

lemma new_workNode_wf [simp]: "wf_node h (new_workNode t)"
  by (simp add: wf_node_def new_workNode_def jm_keys_def)

lemma attach_wf:
  assumes "wf_heap h" "p < length h" "w < length h" "name (h ! w) = k"
  shows "wf_heap (h[p := (h ! p)\<lparr>dependencies := jm_set (dependencies (h ! p)) k w,
                                  originalDependencies := od\<rparr>])
       \<and> ext h (h[p := (h ! p)\<lparr>dependencies := jm_set (dependencies (h ! p)) k w,
                                  originalDependencies := od\<rparr>])"
proof -
  let ?nd = "(h ! p)\<lparr>dependencies := jm_set (dependencies (h ! p)) k w, originalDependencies := od\<rparr>"
  have "wf_node h ?nd"
    by (rule wf_node_deps_set [OF wf_heap_node [OF assms(1,2)] _ assms(3,4)]) simp
  from wf_heap_update [OF assms(1,2) this] ext_update [OF assms(2), of ?nd]
  show ?thesis by simp
qed

lemma addNode_wf:
  "addNode n node parent (g, h, seen) = Some (g', h', seen') \<Longrightarrow> wf_heap h \<Longrightarrow> parent < length h
   \<Longrightarrow> seen_ok g h seen
   \<Longrightarrow> g' = g \<and> wf_heap h' \<and> ext h h' \<and> seen_ok g h' seen'"
proof (induction n arbitrary: node parent h seen g' h' seen')
  case 0
  then show ?case by simp
next
  case (Suc n)
  show ?case
  proof (cases "jm_get seen node")
    case (Some w)
    define h1 where "h1 = h[parent := (h ! parent)
                       \<lparr>dependencies := jm_set (dependencies (h ! parent)) (name_in (g ! node)) w,
                        originalDependencies :=
                          jm_set (originalDependencies (h ! parent)) (name_in (g ! node)) w\<rparr>]"
    from Suc.prems(1) Some have
      "map_option (\<lambda>(h2, seenCoupledNodes). (g, h2, seen)) (markNodeCoupled n w (h1, []))
         = Some (g', h', seen')"
      unfolding h1_def by (simp only: addNode.simps option.case Let_def)
    then obtain sc where
      m: "markNodeCoupled n w (h1, []) = Some (h', sc)" and r: "g' = g" "seen' = seen"
      by auto
    from jm_get_entries [OF Some] Suc.prems(4)
    have w: "w < length h" "name (h ! w) = name_in (g ! node)" by (auto simp: seen_ok_def)
    from attach_wf [OF Suc.prems(2,3) w] have 1: "wf_heap h1" "ext h h1"
      by (simp_all add: h1_def)
    from markNodeCoupled_wf [OF m 1(1) ext_valid [OF 1(2) w(1)]]
    have 2: "wf_heap h'" "ext h1 h'" by simp_all
    have e: "ext h h'" using 1(2) 2(2) ext_trans by blast
    with 2 r seen_ok_ext [OF Suc.prems(4) e] show ?thesis by simp
  next
    case None
    define h0 where "h0 = h @ [new_workNode (g ! node)]"
    define h1 where "h1 = h0[parent := (h0 ! parent)
                       \<lparr>dependencies := jm_set (dependencies (h0 ! parent)) (name_in (g ! node)) (length h),
                        originalDependencies :=
                          jm_set (originalDependencies (h0 ! parent)) (name_in (g ! node)) (length h)\<rparr>]"
    from Suc.prems(1) None have
      l: "ofold (\<lambda>dep st. addNode n dep (length h) st) (dependencies_in (g ! node))
            (g, h1, jm_set seen node (length h)) = Some (g', h', seen')"
      unfolding h0_def h1_def by (simp only: addNode.simps option.case Let_def)
    have 0: "wf_heap h0" "ext h h0" unfolding h0_def
      by (auto intro: wf_heap_append [OF Suc.prems(2)] ext_append)
    have w0: "length h < length h0" "name (h0 ! length h) = name_in (g ! node)"
      by (simp_all add: h0_def new_workNode_def)
    from attach_wf [OF 0(1) ext_valid [OF 0(2) Suc.prems(3)] w0]
    have 1: "wf_heap h1" "ext h0 h1" by (simp_all add: h1_def)
    have e1: "ext h h1" using 0(2) 1(2) ext_trans by blast
    have w1: "length h < length h1" "name (h1 ! length h) = name_in (g ! node)"
      using ext_valid [OF 1(2) w0(1)] ext_name [OF 1(2) w0(1)] w0(2) by simp_all
    have s1: "seen_ok g h1 (jm_set seen node (length h))"
      using seen_ok_ext [OF Suc.prems(4) e1] w1
        jm_entries_set [of seen node "length h"]
      by (auto simp: seen_ok_def)
    have "case (g', h', seen') of (g2, h2, s2) \<Rightarrow>
            g2 = g \<and> wf_heap h2 \<and> ext h1 h2 \<and> seen_ok g h2 s2"
    proof (rule ofold_inv [OF l])
      show "case (g, h1, jm_set seen node (length h)) of (g2, h2, s2) \<Rightarrow>
              g2 = g \<and> wf_heap h2 \<and> ext h1 h2 \<and> seen_ok g h2 s2"
        using 1 s1 by simp
    next
      fix x st st'
      assume I: "case st of (g2, h2, s2) \<Rightarrow> g2 = g \<and> wf_heap h2 \<and> ext h1 h2 \<and> seen_ok g h2 s2"
        and s: "addNode n x (length h) st = Some st'"
      obtain g2 h2 s2 where st: "st = (g2, h2, s2)" by (cases st)
      obtain g3 h3 s3 where st': "st' = (g3, h3, s3)" by (cases st')
      from I st have 2: "g2 = g" "wf_heap h2" "ext h1 h2" "seen_ok g h2 s2" by simp_all
      from s st st' 2(1) have "addNode n x (length h) (g, h2, s2) = Some (g3, h3, s3)" by simp
      from Suc.IH [OF this 2(2) ext_valid [OF 2(3) w1(1)] 2(4)] 2(3) st'
      show "case st' of (g2, h2, s2) \<Rightarrow> g2 = g \<and> wf_heap h2 \<and> ext h1 h2 \<and> seen_ok g h2 s2"
        by (auto intro: ext_trans)
    qed
    with e1 show ?thesis by (auto intro: ext_trans)
  qed
qed

lemma cloneTree_wf:
  assumes "cloneTree n g tree = Some (g', h, t)"
  shows "g' = g \<and> wf_heap h \<and> t < length h"
proof -
  let ?h0 = "[new_workNode (g ! tree)]"
  from assms obtain seen where
    l: "ofold (\<lambda>dep st. addNode n dep 0 st) (dependencies_in (g ! tree))
          (g, ?h0, [Some (tree, 0)]) = Some (g', h, seen)" and t: "t = 0"
    by (auto simp: cloneTree_def)
  have w0: "wf_heap ?h0" by (simp add: wf_heap_def)
  have s0: "seen_ok g ?h0 [Some (tree, 0)]" by (simp add: seen_ok_def new_workNode_def)
  have "case (g', h, seen) of (g2, h2, s2) \<Rightarrow>
          g2 = g \<and> wf_heap h2 \<and> ext ?h0 h2 \<and> seen_ok g h2 s2"
  proof (rule ofold_inv [OF l])
    show "case (g, ?h0, [Some (tree, 0)]) of (g2, h2, s2) \<Rightarrow>
            g2 = g \<and> wf_heap h2 \<and> ext ?h0 h2 \<and> seen_ok g h2 s2"
      using w0 s0 by simp
  next
    fix x st st'
    assume I: "case st of (g2, h2, s2) \<Rightarrow> g2 = g \<and> wf_heap h2 \<and> ext ?h0 h2 \<and> seen_ok g h2 s2"
      and s: "addNode n x 0 st = Some st'"
    obtain g2 h2 s2 where st: "st = (g2, h2, s2)" by (cases st)
    obtain g3 h3 s3 where st': "st' = (g3, h3, s3)" by (cases st')
    from I st have 2: "g2 = g" "wf_heap h2" "ext ?h0 h2" "seen_ok g h2 s2" by simp_all
    from s st st' 2(1) have "addNode n x 0 (g, h2, s2) = Some (g3, h3, s3)" by simp
    from addNode_wf [OF this 2(2) _ 2(4)] ext_valid [OF 2(3), of 0] 2(3) st'
    show "case st' of (g2, h2, s2) \<Rightarrow> g2 = g \<and> wf_heap h2 \<and> ext ?h0 h2 \<and> seen_ok g h2 s2"
      by (auto intro: ext_trans)
  qed
  then have "g' = g" "wf_heap h" "ext ?h0 h" by simp_all
  with t ext_valid [of ?h0 h 0] show ?thesis by simp
qed

subsection \<open>The loop that builds the output\<close>

lemma loop_step_ok_tl: "loop_step_ok h F (d # ds) c node \<Longrightarrow> loop_step_ok h F ds c node"
  unfolding loop_step_ok_def by simp

lemma good_stable:
  assumes "good o1 r" "length o1 \<le> length o2" "o2 ! r = o1 ! r"
    and "\<forall>y < length o1. name_out (o2 ! y) = name_out (o1 ! y)"
  shows "good o2 r"
  unfolding good_def
proof (intro conjI ballI impI)
  fix c assume "c \<in> set (dependencies_out (o2 ! r))"
  with assms(1,2,3) show "c < length o2" by (auto simp: good_def)
next
  fix c1 c2
  assume c: "c1 \<in> set (dependencies_out (o2 ! r))" "c2 \<in> set (dependencies_out (o2 ! r))"
    "c1 \<noteq> c2"
  with assms(1,3) have v: "c1 < length o1" "c2 < length o1"
    and n: "name_out (o1 ! c1) \<noteq> name_out (o1 ! c2)"
    by (auto simp: good_def)
  from assms(4) v have "name_out (o2 ! c1) = name_out (o1 ! c1)"
    "name_out (o2 ! c2) = name_out (o1 ! c2)" by blast+
  with n show "name_out (o2 ! c1) \<noteq> name_out (o2 ! c2)" by simp
qed

lemma result_loop:
  "ofold F ds (out, seen) = Some (out', seen') \<Longrightarrow> distinct (map (\<lambda>d. name (h ! d)) ds)
    \<Longrightarrow> c < length out \<Longrightarrow> node \<in> set seen \<Longrightarrow> name_out (out ! c) = name (h ! node)
    \<Longrightarrow> good out c
    \<Longrightarrow> \<forall>x \<in> set (dependencies_out (out ! c)). name_out (out ! x) \<notin> (\<lambda>d. name (h ! d)) ` set ds
    \<Longrightarrow> loop_step_ok h F ds c node
    \<Longrightarrow> loop_done out out' c \<and> set seen' = set seen"
proof (induction ds arbitrary: out seen)
  case Nil
  then show ?case by (auto simp: loop_done_def)
next
  case (Cons d ds)
  from Cons.prems(1) obtain o1 s1 where
    f: "F d (out, seen) = Some (o1, s1)" and l: "ofold F ds (o1, s1) = Some (out', seen')"
    by (auto split: option.splits)
  have dist: "distinct (map (\<lambda>d. name (h ! d)) ds)" "name (h ! d) \<notin> (\<lambda>d. name (h ! d)) ` set ds"
    using Cons.prems(2) by auto
  have spec': "loop_step_ok h F ds c node" by (rule loop_step_ok_tl [OF Cons.prems(8)])
  from Cons.prems(8) f Cons.prems(3,4,5)
  have "(o1 = out \<and> s1 = seen) \<or> (child_added out o1 c (name (h ! d)) \<and> set s1 = set seen)"
    unfolding loop_step_ok_def by simp
  then consider (same) "o1 = out" "s1 = seen"
    | (added) "child_added out o1 c (name (h ! d))" "set s1 = set seen"
    by blast
  then show ?case
  proof cases
    case same
    have l': "ofold F ds (out, seen) = Some (out', seen')" using l same by simp
    have p7: "\<forall>x \<in> set (dependencies_out (out ! c)).
                name_out (out ! x) \<notin> (\<lambda>d. name (h ! d)) ` set ds"
      using Cons.prems(7) by auto
    show ?thesis by (rule Cons.IH [OF l' dist(1) Cons.prems(3,4,5,6) p7 spec'])
  next
    case added
    from added(1) obtain x where
      a: "length out \<le> length o1" "\<forall>r < length out. r \<noteq> c \<longrightarrow> o1 ! r = out ! r"
        "name_out (o1 ! c) = name_out (out ! c)"
        "x < length o1" "x = c \<or> length out \<le> x" "name_out (o1 ! x) = name (h ! d)"
        "dependencies_out (o1 ! c) = js_add (dependencies_out (out ! c)) x"
        "\<forall>r. length out \<le> r \<and> r < length o1 \<longrightarrow> good o1 r"
      unfolding child_added_def by blast
    have names: "\<forall>y < length out. name_out (o1 ! y) = name_out (out ! y)"
    proof (intro allI impI)
      fix y assume "y < length out"
      with a(2,3) show "name_out (o1 ! y) = name_out (out ! y)" by (cases "y = c") simp_all
    qed
    have oldc: "\<forall>y \<in> set (dependencies_out (out ! c)). y < length out"
      using Cons.prems(6) by (simp add: good_def)
    have g1: "good o1 c"
      unfolding good_def
    proof (intro conjI ballI impI)
      fix y assume "y \<in> set (dependencies_out (o1 ! c))"
      then show "y < length o1" using a(1,4,7) oldc by (auto simp: js_add_def split: if_splits)
    next
      fix c1 c2
      assume c: "c1 \<in> set (dependencies_out (o1 ! c))" "c2 \<in> set (dependencies_out (o1 ! c))"
        "c1 \<noteq> c2"
      have old: "name_out (o1 ! y) = name_out (out ! y)
                 \<and> name_out (out ! y) \<noteq> name (h ! d)"
        if "y \<in> set (dependencies_out (out ! c))" for y
        using that names oldc Cons.prems(7) by auto
      from c a(7) consider
        "c1 \<in> set (dependencies_out (out ! c))" "c2 \<in> set (dependencies_out (out ! c))"
        | "c1 \<in> set (dependencies_out (out ! c))" "c2 = x"
        | "c1 = x" "c2 \<in> set (dependencies_out (out ! c))"
        by (auto simp: js_add_def split: if_splits)
      then show "name_out (o1 ! c1) \<noteq> name_out (o1 ! c2)"
      proof cases
        case 1
        with Cons.prems(6) c(3) old show ?thesis by (simp add: good_def)
      next
        case 2
        with old [of c1] a(6) show ?thesis by auto
      next
        case 3
        with old [of c2] a(6) show ?thesis by auto
      qed
    qed
    have pre7: "\<forall>y \<in> set (dependencies_out (o1 ! c)). name_out (o1 ! y) \<notin> (\<lambda>d. name (h ! d)) ` set ds"
    proof
      fix y assume "y \<in> set (dependencies_out (o1 ! c))"
      with a(7) consider "y \<in> set (dependencies_out (out ! c))" | "y = x"
        by (auto simp: js_add_def split: if_splits)
      then show "name_out (o1 ! y) \<notin> (\<lambda>d. name (h ! d)) ` set ds"
      proof cases
        case 1
        with names oldc Cons.prems(7) show ?thesis by auto
      next
        case 2
        with a(6) dist(2) show ?thesis by simp
      qed
    qed
    have c1: "c < length o1" using Cons.prems(3) a(1) by simp
    have n1: "node \<in> set s1" using added(2) Cons.prems(4) by simp
    have nm1: "name_out (o1 ! c) = name (h ! node)" using a(3) Cons.prems(5) by simp
    note ih = Cons.IH [OF l dist(1) c1 n1 nm1 g1 pre7 spec']
    have r: "loop_done o1 out' c" "set seen' = set s1"
      using ih by (rule conjunct1, rule conjunct2)
    have b: "length o1 \<le> length out'" "\<forall>r < length o1. r \<noteq> c \<longrightarrow> out' ! r = o1 ! r"
      "name_out (out' ! c) = name_out (o1 ! c)" "good out' c"
      "\<forall>r. length o1 \<le> r \<and> r < length out' \<longrightarrow> good out' r"
      using r(1) unfolding loop_done_def by blast+
    have names2: "\<forall>y < length o1. name_out (out' ! y) = name_out (o1 ! y)"
    proof (intro allI impI)
      fix y assume "y < length o1"
      with b(2,3) show "name_out (out' ! y) = name_out (o1 ! y)" by (cases "y = c") simp_all
    qed
    have "good out' r" if "length out \<le> r" "r < length out'" for r
    proof (cases "r < length o1")
      case False
      with b(5) that show ?thesis by simp
    next
      case True
      show ?thesis
      proof (cases "r = c")
        case True
        with b(4) show ?thesis by simp
      next
        case False
        from a(8) that(1) True have "good o1 r" by simp
        from good_stable [OF this b(1) _ names2] b(2) True False show ?thesis by simp
      qed
    qed
    then have new: "\<forall>r. length out \<le> r \<and> r < length out' \<longrightarrow> good out' r" by blast
    have keep: "\<forall>r < length out. r \<noteq> c \<longrightarrow> out' ! r = out ! r"
    proof (intro allI impI)
      fix r assume "r < length out" "r \<noteq> c"
      with a(1,2) b(2) show "out' ! r = out ! r" by simp
    qed
    have "length out \<le> length out'" using a(1) b(1) by simp
    moreover have "name_out (out' ! c) = name_out (out ! c)" using a(3) b(3) by simp
    ultimately have "loop_done out out' c"
      unfolding loop_done_def using keep b(4) new by blast
    with r(2) added(2) show ?thesis by simp
  qed
qed

subsection \<open>The output\<close>

lemma values_names_distinct:
  assumes "wf_node h nd"
  shows "distinct (map (\<lambda>d. name (h ! d)) (jm_values (dependencies nd)))"
proof -
  have "map (\<lambda>d. name (h ! d)) (jm_values (dependencies nd)) = jm_keys (dependencies nd)"
    unfolding jm_values_def jm_keys_def map_map
    by (rule map_cong [OF refl]) (use assms in \<open>auto simp: wf_node_def\<close>)
  with assms show ?thesis by (simp add: wf_node_def)
qed

lemma add_result_dependency_props:
  assumes "pr < length out"
  shows "length (add_result_dependency out pr c) = length out"
    and "\<forall>r < length out. r \<noteq> pr \<longrightarrow> add_result_dependency out pr c ! r = out ! r"
    and "name_out (add_result_dependency out pr c ! pr) = name_out (out ! pr)"
    and "dependencies_out (add_result_dependency out pr c ! pr) = js_add (dependencies_out (out ! pr)) c"
  using assms by (simp_all add: add_result_dependency_def)

lemma addResultNode_spec:
  "addResultNode n h node pw pr (out, seen) = Some (out', seen') \<Longrightarrow> wf_heap h
   \<Longrightarrow> node < length h \<Longrightarrow> pr < length out \<Longrightarrow> pw \<in> set seen
   \<Longrightarrow> name_out (out ! pr) = name (h ! pw)
   \<Longrightarrow> child_added out out' pr (name (h ! node)) \<and> set seen' = set seen"
proof (induction n arbitrary: node pw pr out seen out' seen')
  case 0
  then show ?case by simp
next
  case (Suc n)
  note p = add_result_dependency_props
  show ?case
  proof (cases "pw = node")
    case True
    with Suc.prems(1,5) have r: "out' = add_result_dependency out pr pr" "seen' = seen"
      by (simp_all add: Let_def)
    have "child_added out out' pr (name (h ! node))"
      unfolding child_added_def r
      using p [OF Suc.prems(4), of pr] Suc.prems(4,6) True
      by (intro conjI) (auto intro!: exI [of _ pr])
    with r show ?thesis by simp
  next
    case False
    define c where "c = length out"
    define new where "new = \<lparr>name_out = name (h ! node),
                          identName_out = getIdentName (locator (h ! node)),
                          references_out = references (h ! node),
                          dependencies_out = []\<rparr>"
    define out2 where "out2 = add_result_dependency (out @ [new]) pr c"
    have pr1: "pr < length (out @ [new])" using Suc.prems(4) by simp
    note q = p [OF pr1, of c, folded out2_def]
    have l2: "length out2 = Suc (length out)" using q(1) by simp
    have keep2: "\<forall>r < length out. r \<noteq> pr \<longrightarrow> out2 ! r = out ! r"
      using q(2) by (auto simp: nth_append)
    have pr2: "name_out (out2 ! pr) = name_out (out ! pr)"
      "dependencies_out (out2 ! pr) = js_add (dependencies_out (out ! pr)) c"
      using q(3,4) Suc.prems(4) by (simp_all add: nth_append)
    have c2: "out2 ! c = new" using q(2) Suc.prems(4) by (auto simp: c_def nth_append)
    have gc2: "good out2 c" by (simp add: good_def c2 new_def)
    show ?thesis
    proof (cases "node \<in> set seen")
      case True
      with Suc.prems(1) False have r: "out' = out2" "seen' = seen"
        by (simp_all add: Let_def out2_def new_def c_def)
      have "child_added out out2 pr (name (h ! node))"
        unfolding child_added_def
      proof (intro conjI)
        show "\<exists>x<length out2. (x = pr \<or> length out \<le> x) \<and> name_out (out2 ! x) = name (h ! node)
                \<and> dependencies_out (out2 ! pr) = js_add (dependencies_out (out ! pr)) x"
          using l2 c2 pr2(2) by (intro exI [of _ c]) (simp add: c_def new_def)
        show "\<forall>r. length out \<le> r \<and> r < length out2 \<longrightarrow> good out2 r"
          using l2 gc2 by (auto simp: c_def less_Suc_eq)
      qed (use l2 keep2 pr2 in auto)
      with r show ?thesis by simp
    next
      case nseen: False
      define F where "F = (\<lambda>dep st.
                   if name (h ! dep) \<notin> set (peerNames (h ! node))
                   then addResultNode n h dep node c st
                   else Some st)"
      have "map_option (\<lambda>(o3, s3). (o3, js_delete s3 node))
              (ofold F (jm_values (dependencies (h ! node))) (out2, js_add seen node))
            = Some (out', seen')"
        using Suc.prems(1) False nseen unfolding F_def out2_def new_def c_def
        by (simp add: Let_def)
      then obtain o3 s3 where
        l: "ofold F (jm_values (dependencies (h ! node))) (out2, js_add seen node) = Some (o3, s3)"
        and r: "out' = o3" "seen' = js_delete s3 node"
        by (cases "ofold F (jm_values (dependencies (h ! node))) (out2, js_add seen node)") auto
      have wn: "wf_node h (h ! node)" by (rule wf_heap_node [OF Suc.prems(2,3)])
      have ok: "loop_step_ok h F (jm_values (dependencies (h ! node))) c node"
        unfolding loop_step_ok_def
      proof (intro allI impI)
        fix d o1 s1 o1' s1'
        assume d: "d \<in> set (jm_values (dependencies (h ! node)))"
          and f: "F d (o1, s1) = Some (o1', s1')"
          and pre: "c < length o1" "node \<in> set s1" "name_out (o1 ! c) = name (h ! node)"
        show "(o1' = o1 \<and> s1' = s1) \<or> (child_added o1 o1' c (name (h ! d)) \<and> set s1' = set s1)"
        proof (cases "name (h ! d) \<notin> set (peerNames (h ! node))")
          case True
          with f have "addResultNode n h d node c (o1, s1) = Some (o1', s1')" by (simp add: F_def)
          from Suc.IH [OF this Suc.prems(2) wf_node_value [OF wn d] pre] show ?thesis by simp
        next
          case False
          with f show ?thesis by (simp add: F_def)
        qed
      qed
      have "loop_done out2 o3 c \<and> set s3 = set (js_add seen node)"
        by (rule result_loop [OF l values_names_distinct [OF wn] _ _ _ gc2 _ ok])
          (simp_all add: l2 c_def c2 [unfolded c_def] new_def js_add_def)
      then have d: "length out2 \<le> length o3" "\<forall>r < length out2. r \<noteq> c \<longrightarrow> o3 ! r = out2 ! r"
        "name_out (o3 ! c) = name_out (out2 ! c)" "good o3 c"
        "\<forall>r. length out2 \<le> r \<and> r < length o3 \<longrightarrow> good o3 r"
        and s: "set s3 = set (js_add seen node)"
        unfolding loop_done_def by blast+
      have prc: "pr \<noteq> c" "pr < length out2" using Suc.prems(4) l2 by (simp_all add: c_def)
      have "child_added out o3 pr (name (h ! node))"
        unfolding child_added_def
      proof (intro conjI)
        show "length out \<le> length o3" using d(1) l2 by simp
        show "\<forall>r < length out. r \<noteq> pr \<longrightarrow> o3 ! r = out ! r"
        proof (intro allI impI)
          fix r assume "r < length out" "r \<noteq> pr"
          with d(2) keep2 l2 show "o3 ! r = out ! r" by (simp add: c_def)
        qed
        show "name_out (o3 ! pr) = name_out (out ! pr)" using d(2) prc pr2(1) by simp
        show "\<exists>x<length o3. (x = pr \<or> length out \<le> x) \<and> name_out (o3 ! x) = name (h ! node)
                \<and> dependencies_out (o3 ! pr) = js_add (dependencies_out (out ! pr)) x"
          using d(1,2,3) l2 c2 pr2(2) prc
          by (intro exI [of _ c]) (simp add: c_def new_def)
        show "\<forall>r. length out \<le> r \<and> r < length o3 \<longrightarrow> good o3 r"
        proof (intro allI impI)
          fix r assume "length out \<le> r \<and> r < length o3"
          then show "good o3 r" using d(4,5) l2 by (cases "r = c") (auto simp: c_def)
        qed
      qed
      moreover have "set (js_delete s3 node) = set seen"
        using s nseen by (auto simp: js_delete_def js_add_def)
      ultimately show ?thesis using r by simp
    qed
  qed
qed

lemma shrinkTree_good:
  assumes "shrinkTree n h tree = Some out" "wf_heap h" "tree < length h"
  shows "\<forall>r < length out. good out r"
proof -
  define root where "root = \<lparr>name_out = name (h ! tree),
             identName_out = getIdentName (locator (h ! tree)),
             references_out = references (h ! tree),
             dependencies_out = []\<rparr>"
  define F where "F = (\<lambda>dep st. addResultNode n h dep tree 0 st)"
  from assms(1) obtain seen where
    l: "ofold F (jm_values (dependencies (h ! tree))) ([root], [tree]) = Some (out, seen)"
    by (auto simp: shrinkTree_def root_def F_def)
  have wn: "wf_node h (h ! tree)" by (rule wf_heap_node [OF assms(2,3)])
  have ok: "loop_step_ok h F (jm_values (dependencies (h ! tree))) 0 tree"
    unfolding loop_step_ok_def
  proof (intro allI impI)
    fix d o1 s1 o1' s1'
    assume d: "d \<in> set (jm_values (dependencies (h ! tree)))"
      and f: "F d (o1, s1) = Some (o1', s1')"
      and pre: "0 < length o1" "tree \<in> set s1" "name_out (o1 ! 0) = name (h ! tree)"
    from f have "addResultNode n h d tree 0 (o1, s1) = Some (o1', s1')" by (simp add: F_def)
    from addResultNode_spec [OF this assms(2) wf_node_value [OF wn d] pre]
    show "(o1' = o1 \<and> s1' = s1) \<or> (child_added o1 o1' 0 (name (h ! d)) \<and> set s1' = set s1)"
      by simp
  qed
  have "loop_done [root] out 0 \<and> set seen = set [tree]"
    by (rule result_loop [OF l values_names_distinct [OF wn] _ _ _ _ _ ok])
      (simp_all add: root_def good_def)
  then have "good out 0" "\<forall>r. length [root] \<le> r \<and> r < length out \<longrightarrow> good out r"
    unfolding loop_done_def by blast+
  then have g: "good out 0" "\<forall>r. 0 < r \<and> r < length out \<longrightarrow> good out r" by simp_all
  show ?thesis
  proof (intro allI impI)
    fix r assume "r < length out"
    with g show "good out r" by (cases "r = 0") simp_all
  qed
qed

lemma hoist_output_good:
  assumes "hoist n num env g tree opts = Some (Inr (g', out))"
  shows "g' = g \<and> (\<forall>r < length out. good out r)"
proof -
  from assms obtain h0 t h1 rnp where
    a: "cloneTree n g tree = Some (g', h0, t)"
    and b: "hoistTo n (internal_options num opts env) t t [] (h0, [locator (h0 ! t)])
              = Some (Inr (h1, rnp))"
    and c: "shrinkTree n h1 t = Some out"
    by (auto simp: hoist_def Let_def bnd_Inr case_prod_Inr)
  from cloneTree_wf [OF a] have 0: "g' = g" "wf_heap h0" "t < length h0" by simp_all
  from hoistTo_wf [of n _ t t "[]" h0 _ h1 rnp] b 0 have 1: "wf_heap h1" "ext h0 h1" by simp_all
  from shrinkTree_good [OF c 1(1) ext_valid [OF 1(2) 0(3)]] 0(1) show ?thesis by simp
qed

section \<open>Names in the output\<close>

text \<open>
  C9 (name uniqueness in the output): when \<^verbatim>\<open>hoist\<close> returns, every child of every
  output node is a node of the output, and no output node has two distinct children with
  the same name.
\<close>

theorem output_names_unique:
  assumes "hoist n num env g tree opts = Some (Inr (g', out))"
    and "r < length out"
    and "c1 \<in> set (dependencies_out (out ! r))"
    and "c2 \<in> set (dependencies_out (out ! r))"
    and "c1 \<noteq> c2"
  shows "c1 < length out \<and> c2 < length out \<and> name_out (out ! c1) \<noteq> name_out (out ! c2)"
proof -
  from hoist_output_good [OF assms(1)] assms(2) have "good out r" by simp
  with assms(3,4,5) show ?thesis unfolding good_def by blast
qed

theorem output_names_unique_witness:
  "hoist 20 (\<lambda>s. 0) None two_versions 0 no_options = Some (Inr (two_versions, two_versions_out))
   \<and> 0 < length two_versions_out
   \<and> 1 \<in> set (dependencies_out (two_versions_out ! 0))
   \<and> 2 \<in> set (dependencies_out (two_versions_out ! 0))
   \<and> name_out (two_versions_out ! 1) \<noteq> name_out (two_versions_out ! 2)"
proof -
  have e: "hoist 20 (\<lambda>s. 0) None two_versions 0 no_options
             = Some (Inr (two_versions, two_versions_out))"
    by code_simp
  have p: "0 < length two_versions_out" "1 \<in> set (dependencies_out (two_versions_out ! 0))"
    "2 \<in> set (dependencies_out (two_versions_out ! 0))"
    by (simp_all add: two_versions_out_def)
  have "(1::nat) \<noteq> 2" by simp
  from output_names_unique [OF e p this] e p show ?thesis by simp
qed

section \<open>The input graph\<close>

text \<open>
  C7 (input immutability): the input graph is a store of its own, handed to \<^verbatim>\<open>cloneTree\<close>,
  the one function that is given input nodes.  The store comes back from \<^verbatim>\<open>cloneTree\<close> as
  it went in, whatever happens later, and from \<^verbatim>\<open>hoist\<close> as it went in: every field of
  every input node is what it was.
\<close>

theorem input_unchanged:
  "(cloneTree n g tree = Some (g1, h, t) \<longrightarrow> g1 = g)
   \<and> (hoist n num env g tree opts = Some (Inr (g2, out)) \<longrightarrow> g2 = g)"
proof (intro conjI impI)
  assume "cloneTree n g tree = Some (g1, h, t)"
  from cloneTree_wf [OF this] show "g1 = g" by simp
next
  assume "hoist n num env g tree opts = Some (Inr (g2, out))"
  from hoist_output_good [OF this] show "g2 = g" by simp
qed

theorem input_unchanged_witness:
  "\<exists>g1 h t g2 out. cloneTree 20 cyclic_peers 0 = Some (g1, h, t) \<and> g1 = cyclic_peers
     \<and> hoist 20 (\<lambda>s. 0) None cyclic_peers 0 no_options = Some (Inr (g2, out))
     \<and> g2 = cyclic_peers"
proof -
  have "cloneTree 20 cyclic_peers 0 \<noteq> None" by code_simp
  then obtain g1 h t where a: "cloneTree 20 cyclic_peers 0 = Some (g1, h, t)" by auto
  have "case hoist 20 (\<lambda>s. 0) None cyclic_peers 0 no_options of
          Some (Inr x) \<Rightarrow> True | _ \<Rightarrow> False"
    by code_simp
  then obtain g2 out where
    b: "hoist 20 (\<lambda>s. 0) None cyclic_peers 0 no_options = Some (Inr (g2, out))"
    by (auto split: option.splits sum.splits)
  from input_unchanged [of 20 cyclic_peers 0 g1 h t "\<lambda>s. 0" None no_options g2 out] a b
  have "g1 = cyclic_peers" "g2 = cyclic_peers" by simp_all
  with a b show ?thesis by blast
qed

section \<open>Independence of the bound on the depth of recursion\<close>

text \<open>
  A larger bound does not change the result of a computation that the smaller bound
  does not cut short.
\<close>

lemma le_opt_refl: "le_opt a a"
  by (simp add: le_opt_def)

lemma le_opt_None: "le_opt None a"
  by (simp add: le_opt_def)

lemma le_opt_Some: "le_opt a b \<Longrightarrow> a = Some r \<Longrightarrow> b = Some r"
  by (auto simp: le_opt_def)

lemma le_opt_bnd:
  "le_opt a a' \<Longrightarrow> (\<And>x. le_opt (f x) (f' x)) \<Longrightarrow> le_opt (bnd a f) (bnd a' f')"
  by (auto simp: le_opt_def bnd_def split: option.splits sum.splits)

lemma le_opt_map_option: "le_opt a a' \<Longrightarrow> le_opt (map_option f a) (map_option f a')"
  by (auto simp: le_opt_def)

lemma le_opt_lift_option: "le_opt a a' \<Longrightarrow> le_opt (lift_option a) (lift_option a')"
  by (auto simp: le_opt_def lift_option_def)

lemma le_opt_if:
  "(c \<Longrightarrow> le_opt a a') \<Longrightarrow> (\<not> c \<Longrightarrow> le_opt b b')
    \<Longrightarrow> le_opt (if c then a else b) (if c then a' else b')"
  by simp

lemma le_opt_case_prod:
  "(\<And>x y. le_opt (f x y) (f' x y)) \<Longrightarrow> le_opt (case_prod f p) (case_prod f' p)"
  by (cases p) simp

lemma le_opt_case_option:
  "le_opt a a' \<Longrightarrow> (\<And>x. le_opt (f x) (f' x)) \<Longrightarrow> le_opt (case_option a f p) (case_option a' f' p)"
  by (cases p) simp_all

lemma le_opt_case_HoistInfo:
  "le_opt a a' \<Longrightarrow> (\<And>x. le_opt (f x) (f' x)) \<Longrightarrow> (\<And>x. le_opt (k x) (k' x))
    \<Longrightarrow> le_opt (case_HoistInfo a f k p) (case_HoistInfo a' f' k' p)"
  by (cases p) simp_all

lemma le_opt_ofold:
  "(\<And>x s. le_opt (f x s) (f' x s)) \<Longrightarrow> le_opt (ofold f xs s) (ofold f' xs s)"
proof (induction xs arbitrary: s)
  case Nil
  show ?case by (simp add: le_opt_def)
next
  case (Cons x xs)
  show ?case
  proof (cases "f x s")
    case None
    then show ?thesis by (simp add: le_opt_def)
  next
    case (Some s1)
    with Cons.prems [of x s] have "f' x s = Some s1" by (simp add: le_opt_def)
    with Some Cons.IH [OF Cons.prems, of s1] show ?thesis by simp
  qed
qed

lemma le_opt_cfold:
  "(\<And>x s. le_opt (f x s) (f' x s)) \<Longrightarrow> le_opt (cfold f xs s) (cfold f' xs s)"
proof (induction xs arbitrary: s)
  case Nil
  show ?case by (simp add: le_opt_def)
next
  case (Cons x xs)
  show ?case unfolding cfold.simps
    by (rule le_opt_bnd [OF Cons.prems]) (rule Cons.IH [OF Cons.prems])
qed

lemmas le_opt_rules = le_opt_refl le_opt_bnd le_opt_map_option le_opt_lift_option le_opt_if
  le_opt_case_prod le_opt_case_option le_opt_case_HoistInfo le_opt_ofold le_opt_cfold

lemma addDep_mono: "n \<le> m \<Longrightarrow> le_opt (addDep n h nd dep st) (addDep m h nd dep st)"
proof (induction n arbitrary: m dep st)
  case 0
  show ?case by (simp add: le_opt_def)
next
  case (Suc n)
  then obtain m' where m: "m = Suc m'" "n \<le> m'" by (cases m) auto
  obtain x y where st: "st = (x, y)" by (cases st)
  show ?case unfolding m st addDep.simps Let_def
    by (intro le_opt_rules Suc.IH m(2))
qed

lemma getSortedRegularDependencies_mono:
  "n \<le> m \<Longrightarrow> le_opt (getSortedRegularDependencies n h node) (getSortedRegularDependencies m h node)"
  unfolding getSortedRegularDependencies_def by (intro le_opt_rules addDep_mono)

lemma addHoistedDependencies_mono:
  "n \<le> m \<Longrightarrow> le_opt (addHoistedDependencies n h r node st) (addHoistedDependencies m h r node st)"
proof (induction n arbitrary: m node st)
  case 0
  show ?case by (simp add: le_opt_def)
next
  case (Suc n)
  then obtain m' where m: "m = Suc m'" "n \<le> m'" by (cases m) auto
  obtain x y where st: "st = (x, y)" by (cases st)
  show ?case unfolding m st addHoistedDependencies.simps Let_def
    by (intro le_opt_rules Suc.IH m(2))
qed

lemma getHoistedDependencies_mono:
  "n \<le> m \<Longrightarrow> le_opt (getHoistedDependencies n h r) (getHoistedDependencies m h r)"
  unfolding getHoistedDependencies_def by (intro le_opt_rules addHoistedDependencies_mono)

lemma addParent_mono:
  "n \<le> m \<Longrightarrow> le_opt (addParent n h p node st) (addParent m h p node st)"
proof (induction n arbitrary: m p node st)
  case 0
  show ?case by (simp add: le_opt_def)
next
  case (Suc n)
  then obtain m' where m: "m = Suc m'" "n \<le> m'" by (cases m) auto
  obtain x y where st: "st = (x, y)" by (cases st)
  show ?case unfolding m st addParent.simps Let_def
    by (intro le_opt_rules Suc.IH m(2))
qed

lemma buildPopularityMap_mono:
  "n \<le> m \<Longrightarrow> le_opt (buildPopularityMap n h r) (buildPopularityMap m h r)"
  unfolding buildPopularityMap_def by (intro le_opt_rules addParent_mono)

lemma checkNode_mono:
  "n \<le> m \<Longrightarrow> le_opt (checkNode n h node pd st) (checkNode m h node pd st)"
proof (induction n arbitrary: m node pd st)
  case 0
  show ?case by (simp add: le_opt_def)
next
  case (Suc n)
  then obtain m' where m: "m = Suc m'" "n \<le> m'" by (cases m) auto
  obtain x y z where st: "st = (x, y, z)" by (cases st)
  show ?case unfolding m st checkNode.simps Let_def
    by (intro le_opt_rules Suc.IH m(2))
qed

lemma selfCheck_mono: "n \<le> m \<Longrightarrow> le_opt (selfCheck n h tree) (selfCheck m h tree)"
  unfolding selfCheck_def by (intro le_opt_rules checkNode_mono)

lemma addUnhoistableNode_mono:
  "n \<le> m \<Longrightarrow> le_opt (addUnhoistableNode n h p dt node hi st) (addUnhoistableNode m h p dt node hi st)"
proof (induction n arbitrary: m node st)
  case 0
  show ?case by (simp add: le_opt_def)
next
  case (Suc n)
  then obtain m' where m: "m = Suc m'" "n \<le> m'" by (cases m) auto
  obtain x y where st: "st = (x, y)" by (cases st)
  show ?case unfolding m st addUnhoistableNode.simps Let_def
    by (intro le_opt_rules Suc.IH m(2))
qed

lemma mark_unhoistable_mono:
  "n \<le> m \<Longrightarrow> le_opt (mark_unhoistable n h p dt i st) (mark_unhoistable m h p dt i st)"
proof (induction n arbitrary: m i st)
  case 0
  show ?case by (simp add: le_opt_def)
next
  case (Suc n)
  then obtain m' where m: "m = Suc m'" "n \<le> m'" by (cases m) auto
  obtain x y where st: "st = (x, y)" by (cases st)
  show ?case unfolding m st mark_unhoistable.simps Let_def
    by (intro le_opt_rules Suc.IH m(2) addUnhoistableNode_mono)
qed

lemma hoistNodeDependencies_mono:
  "n \<le> m \<Longrightarrow> le_opt (hoistNodeDependencies n opts tree r rp hdp hi hm np lp p st)
                     (hoistNodeDependencies m opts tree r rp hdp hi hm np lp p st)"
proof (induction n arbitrary: m np lp p st)
  case 0
  show ?case by (simp add: le_opt_def)
next
  case (Suc n)
  then obtain m' where m: "m = Suc m'" "n \<le> m'" by (cases m) auto
  obtain x y z where st: "st = (x, y, z)" by (cases st)
  show ?case unfolding m st hoistNodeDependencies.simps Let_def
    by (intro le_opt_rules Suc.IH m(2) getSortedRegularDependencies_mono mark_unhoistable_mono
        selfCheck_mono)
qed

lemma hoistGraph_rounds_mono:
  "n \<le> m \<Longrightarrow> le_opt (hoistGraph_rounds n opts tree r rp hdp hi hm nn st)
                     (hoistGraph_rounds m opts tree r rp hdp hi hm nn st)"
proof (induction n arbitrary: m nn st)
  case 0
  show ?case by (simp add: le_opt_def)
next
  case (Suc n)
  then obtain m' where m: "m = Suc m'" "n \<le> m'" by (cases m) auto
  obtain x y where st: "st = (x, y)" by (cases st)
  show ?case unfolding m st hoistGraph_rounds.simps Let_def
    by (intro le_opt_rules Suc.IH m(2) hoistNodeDependencies_mono)
qed

lemma hoistGraph_mono:
  "n \<le> m \<Longrightarrow> le_opt (hoistGraph n opts tree r rp hdp hi hm h) (hoistGraph m opts tree r rp hdp hi hm h)"
  unfolding hoistGraph_def
  by (intro le_opt_rules getSortedRegularDependencies_mono hoistGraph_rounds_mono)

lemma hoistTo_rounds_mono:
  "n \<le> m \<Longrightarrow> le_opt (hoistTo_rounds n opts tree r rp hdp st) (hoistTo_rounds m opts tree r rp hdp st)"
proof (induction n arbitrary: m st)
  case 0
  show ?case by (simp add: le_opt_def)
next
  case (Suc n)
  then obtain m' where m: "m = Suc m'" "n \<le> m'" by (cases m) auto
  obtain x y z where st: "st = (x, y, z)" by (cases st)
  show ?case unfolding m st hoistTo_rounds.simps Let_def
    by (intro le_opt_rules Suc.IH m(2) hoistGraph_mono)
qed

lemma hoistTo_mono:
  "(\<forall>m r sn st. n \<le> m \<longrightarrow> le_opt (hoistTo n opts tree r sn st) (hoistTo m opts tree r sn st))
   \<and> (\<forall>m r i st. n \<le> m \<longrightarrow> le_opt (hoistTo_dependencies n opts tree r i st)
                                   (hoistTo_dependencies m opts tree r i st))"
proof (induction n)
  case 0
  show ?case by (simp add: le_opt_def)
next
  case (Suc n)
  then have ih1: "\<And>m r sn st. n \<le> m \<Longrightarrow> le_opt (hoistTo n opts tree r sn st) (hoistTo m opts tree r sn st)"
    and ih2: "\<And>m r i st. n \<le> m \<Longrightarrow> le_opt (hoistTo_dependencies n opts tree r i st)
                                   (hoistTo_dependencies m opts tree r i st)"
    by blast+
  show ?case
  proof (intro conjI allI impI)
    fix m r sn and st :: "heap \<times> Locator list"
    assume "Suc n \<le> m"
    then obtain m' where m: "m = Suc m'" "n \<le> m'" by (cases m) auto
    obtain x y where st: "st = (x, y)" by (cases st)
    show "le_opt (hoistTo (Suc n) opts tree r sn st) (hoistTo m opts tree r sn st)"
      unfolding m st hoistTo.simps Let_def
      by (intro le_opt_rules ih2 m(2) buildPopularityMap_mono getHoistedDependencies_mono
          hoistTo_rounds_mono)
  next
    fix m r i and st :: "heap \<times> Locator list"
    assume "Suc n \<le> m"
    then obtain m' where m: "m = Suc m'" "n \<le> m'" by (cases m) auto
    obtain x y where st: "st = (x, y)" by (cases st)
    show "le_opt (hoistTo_dependencies (Suc n) opts tree r i st) (hoistTo_dependencies m opts tree r i st)"
      unfolding m st hoistTo_dependencies.simps Let_def
      by (intro le_opt_rules ih1 ih2 m(2))
  qed
qed

lemma markNodeCoupled_mono:
  "n \<le> m \<Longrightarrow> le_opt (markNodeCoupled n node st) (markNodeCoupled m node st)"
proof (induction n arbitrary: m node st)
  case 0
  show ?case by (simp add: le_opt_def)
next
  case (Suc n)
  then obtain m' where m: "m = Suc m'" "n \<le> m'" by (cases m) auto
  obtain x y where st: "st = (x, y)" by (cases st)
  show ?case unfolding m st markNodeCoupled.simps Let_def
    by (intro le_opt_rules Suc.IH m(2))
qed

lemma addNode_mono:
  "n \<le> m \<Longrightarrow> le_opt (addNode n node p st) (addNode m node p st)"
proof (induction n arbitrary: m node p st)
  case 0
  show ?case by (simp add: le_opt_def)
next
  case (Suc n)
  then obtain m' where m: "m = Suc m'" "n \<le> m'" by (cases m) auto
  obtain x y z where st: "st = (x, y, z)" by (cases st)
  show ?case unfolding m st addNode.simps Let_def
    by (intro le_opt_rules Suc.IH m(2) markNodeCoupled_mono)
qed

lemma cloneTree_mono: "n \<le> m \<Longrightarrow> le_opt (cloneTree n g tree) (cloneTree m g tree)"
  unfolding cloneTree_def by (intro le_opt_rules addNode_mono)

lemma addResultNode_mono:
  "n \<le> m \<Longrightarrow> le_opt (addResultNode n h node pw pr st) (addResultNode m h node pw pr st)"
proof (induction n arbitrary: m node pw pr st)
  case 0
  show ?case by (simp add: le_opt_def)
next
  case (Suc n)
  then obtain m' where m: "m = Suc m'" "n \<le> m'" by (cases m) auto
  obtain x y where st: "st = (x, y)" by (cases st)
  show ?case unfolding m st addResultNode.simps Let_def
    by (intro le_opt_rules Suc.IH m(2))
qed

lemma shrinkTree_mono: "n \<le> m \<Longrightarrow> le_opt (shrinkTree n h tree) (shrinkTree m h tree)"
  unfolding shrinkTree_def by (intro le_opt_rules addResultNode_mono)

lemma hoist_mono:
  assumes "n \<le> m"
  shows "le_opt (hoist n num env g tree opts) (hoist m num env g tree opts)"
proof -
  from hoistTo_mono [of n] assms
  have 1: "le_opt (hoistTo n o1 t r sn st) (hoistTo m o1 t r sn st)" for o1 t r sn st by blast
  show ?thesis unfolding hoist_def Let_def
    by (intro le_opt_rules cloneTree_mono 1 selfCheck_mono shrinkTree_mono assms)
qed

lemma hoist_bound_independent:
  assumes "hoist n num env g tree opts = Some r1" "hoist m num env g tree opts = Some r2"
  shows "r1 = r2"
proof (cases "n \<le> m")
  case True
  from le_opt_Some [OF hoist_mono [OF True] assms(1)] assms(2) show ?thesis by simp
next
  case False
  then have "m \<le> n" by simp
  from le_opt_Some [OF hoist_mono [OF this] assms(2)] assms(1) show ?thesis by simp
qed

section \<open>Peer names of the hoist root: the hoisting pass\<close>

subsection \<open>Stores\<close>

lemma static_refl [simp]: "static h h"
  by (simp add: static_def)

lemma static_trans: "static h h1 \<Longrightarrow> static h1 h2 \<Longrightarrow> static h h2"
  by (auto simp: static_def)

lemma static_fields:
  "static h h' \<Longrightarrow> a < length h \<Longrightarrow>
     a < length h' \<and> name (h' ! a) = name (h ! a) \<and> ident (h' ! a) = ident (h ! a)
     \<and> peerNames (h' ! a) = peerNames (h ! a)"
  by (auto simp: static_def)

lemma peer_safe_refl [simp]: "peer_safe p R h h"
  by (auto simp: peer_safe_def)

lemma peer_safe_static: "peer_safe p R h h' \<Longrightarrow> static h h'"
  by (simp add: peer_safe_def)

lemma peer_safe_trans:
  assumes "peer_safe p R h h1" "peer_safe p R h1 h2" "R < length h"
  shows "peer_safe p R h h2"
proof -
  from assms(1,2) have s: "static h h1" "static h1 h2" by (simp_all add: peer_safe_def)
  from static_fields [OF s(1) assms(3)] have n: "name (h1 ! R) = name (h ! R)" by simp
  have G: "\<forall>x. jm_get (dependencies (h2 ! R)) p = Some x \<longrightarrow> jm_get (dependencies (h ! R)) p = Some x"
    using assms(1,2) by (simp add: peer_safe_def)
  have H: "\<exists>b < length h. jm_get (hoistedDependencies (h ! b)) p = Some x"
    if "p \<noteq> name (h ! R)" "a < length h2" "jm_get (hoistedDependencies (h2 ! a)) p = Some x"
    for a x
  proof -
    from assms(2) that n obtain b where
      "b < length h1" "jm_get (hoistedDependencies (h1 ! b)) p = Some x"
      unfolding peer_safe_def by metis
    with assms(1) that(1) show ?thesis unfolding peer_safe_def by metis
  qed
  show ?thesis unfolding peer_safe_def using static_trans [OF s] G H by blast
qed

lemma peer_safe_update:
  assumes s: "name nd = name (h ! a)" "ident nd = ident (h ! a)" "peerNames nd = peerNames (h ! a)"
    and G: "a = R \<Longrightarrow>
              \<forall>x. jm_get (dependencies nd) p = Some x \<longrightarrow> jm_get (dependencies (h ! R)) p = Some x"
    and H: "p \<noteq> name (h ! R) \<Longrightarrow>
              \<forall>x. jm_get (hoistedDependencies nd) p = Some x \<longrightarrow>
                  jm_get (hoistedDependencies (h ! a)) p = Some x"
  shows "peer_safe p R h (h[a := nd])"
proof (cases "a < length h")
  case False
  then have "length h \<le> a" by arith
  then have "h[a := nd] = h" by (rule list_update_beyond)
  then show ?thesis by simp
next
  case True
  have 1: "static h (h[a := nd])" using s True by (auto simp: static_def nth_list_update)
  have 2: "\<forall>x. jm_get (dependencies (h[a := nd] ! R)) p = Some x
               \<longrightarrow> jm_get (dependencies (h ! R)) p = Some x"
    using G True by (cases "a = R") simp_all
  have 3: "\<exists>b < length h. jm_get (hoistedDependencies (h ! b)) p = Some x"
    if "p \<noteq> name (h ! R)" "b < length (h[a := nd])"
      "jm_get (hoistedDependencies (h[a := nd] ! b)) p = Some x" for b x
  proof (cases "b = a")
    case True
    with that H \<open>a < length h\<close> show ?thesis by auto
  next
    case False
    with that show ?thesis by auto
  qed
  show ?thesis unfolding peer_safe_def using 1 2 3 by blast
qed

lemma peer_safe_append:
  assumes "R < length h"
    and "p \<noteq> name (h ! R) \<Longrightarrow>
           \<forall>x. jm_get (hoistedDependencies nd) p = Some x \<longrightarrow>
               (\<exists>b < length h. jm_get (hoistedDependencies (h ! b)) p = Some x)"
  shows "peer_safe p R h (h @ [nd])"
proof -
  have 1: "static h (h @ [nd])" by (simp add: static_def nth_append)
  have 2: "\<forall>x. jm_get (dependencies ((h @ [nd]) ! R)) p = Some x
               \<longrightarrow> jm_get (dependencies (h ! R)) p = Some x"
    using assms(1) by (simp add: nth_append)
  have 3: "\<exists>b < length h. jm_get (hoistedDependencies (h ! b)) p = Some x"
    if "p \<noteq> name (h ! R)" "b < length (h @ [nd])"
      "jm_get (hoistedDependencies ((h @ [nd]) ! b)) p = Some x" for b x
  proof (cases "b < length h")
    case True
    with that show ?thesis by (auto simp: nth_append)
  next
    case False
    with that(2) have "b = length h" by simp
    with that assms(2) show ?thesis by simp
  qed
  show ?thesis unfolding peer_safe_def using 1 2 3 by blast
qed

lemma jm_get_copy [simp]: "jm_get (jm_copy m) k = jm_get m k"
  by (simp add: jm_get_def)

lemma jm_get_delete_same: "distinct (jm_keys m) \<Longrightarrow> jm_get (jm_delete m k) k = None"
proof (induction m k rule: jm_delete.induct)
  case (3 k' v' m k)
  show ?case
  proof (cases "k' = k")
    case True
    with 3 have "k \<notin> fst ` set (jm_entries m)" by (simp add: jm_keys_def)
    with True show ?thesis by (simp add: jm_get_def map_of_eq_None_iff)
  next
    case False
    with 3 show ?thesis by (simp add: jm_get_def jm_keys_def)
  qed
qed (simp_all add: jm_get_def jm_keys_def)

lemma getNodeHoistInfo_candidate:
  assumes "getNodeHoistInfo h rnp nodePath node hdeps hi him oR = Inr info"
  shows "(\<exists>r. info = NO r) \<or> candidate h hi node"
proof (cases "candidate h hi node")
  case True
  then show ?thesis by simp
next
  case False
  then have "(case jm_get hi (name (h ! node)) of Some (Some i) \<Rightarrow> Some i | _ \<Rightarrow> None)
               \<noteq> Some (ident (h ! node))"
    by (auto simp: candidate_def split: option.splits)
  with assms show ?thesis
    by (auto simp: getNodeHoistInfo_def Let_def split: if_splits option.splits list.splits)
qed

lemma collect_candidate:
  assumes "cfold (collect_hoistInfo h rnp path hdeps hi him oR) xs (his0, dt0) = Some (Inr (his, dt))"
    and "\<forall>e \<in> set (jm_entries his0). (\<exists>r. snd e = NO r) \<or> candidate h hi (fst e)"
  shows "\<forall>e \<in> set (jm_entries his). (\<exists>r. snd e = NO r) \<or> candidate h hi (fst e)"
proof -
  define I where "I = (\<lambda>st :: (addr, HoistInfo) jsmap \<times> (PackageName, PackageName list) jsmap.
      \<forall>e \<in> set (jm_entries (fst st)). (\<exists>r. snd e = NO r) \<or> candidate h hi (fst e))"
  have "I (his, dt)"
  proof (rule cfold_inv [OF assms(1)])
    show "I (his0, dt0)" using assms(2) by (simp add: I_def)
  next
    fix x st st'
    assume I: "I st" and s: "collect_hoistInfo h rnp path hdeps hi him oR x st = Some (Inr st')"
    obtain a b where st: "st = (a, b)" by (cases st)
    from s st obtain info where
      g: "getNodeHoistInfo h rnp path x hdeps hi him oR = Inr info"
      and r: "fst st' = jm_set a x info"
      by (auto simp: collect_hoistInfo_def split: sum.splits)
    from getNodeHoistInfo_candidate [OF g]
    have n: "(\<exists>r. info = NO r) \<or> candidate h hi x" .
    show "I st'" unfolding I_def r
    proof
      fix e assume "e \<in> set (jm_entries (jm_set a x info))"
      with jm_entries_set [of a x info] have "e = (x, info) \<or> e \<in> set (jm_entries a)" by auto
      with n I st show "(\<exists>r. snd e = NO r) \<or> candidate h hi (fst e)" by (auto simp: I_def)
    qed
  qed
  then show ?thesis by (simp add: I_def)
qed

lemma jm_entries_take_set:
  "set (jm_entries (take i (jm_set m k v))) \<subseteq> insert (k, v) (set (jm_entries (take i m)))"
proof (induction m k v arbitrary: i rule: jm_set.induct)
  case (1 k v)
  show ?case by (cases i) simp_all
next
  case (2 m k v)
  show ?case using 2 [of "i - 1"] by (cases i) auto
next
  case (3 k' v' m k v)
  show ?case using 3 [of "i - 1"] by (cases i) auto
qed

lemma jm_entries_take_subset: "set (jm_entries (take i m)) \<subseteq> set (jm_entries m)"
proof (induction m arbitrary: i)
  case Nil
  show ?case by simp
next
  case (Cons x m)
  show ?case using Cons [of "i - 1"] by (cases i; cases x) auto
qed

lemma jm_entries_take_Suc:
  "i < length m \<Longrightarrow>
   set (jm_entries (take (Suc i) m)) = set (jm_entries (take i m)) \<union> set_option (m ! i)"
proof (induction m arbitrary: i)
  case Nil
  then show ?case by simp
next
  case (Cons x m)
  show ?case
  proof (cases i)
    case 0
    then show ?thesis by (cases x) simp_all
  next
    case (Suc j)
    with Cons.prems have "j < length m" by simp
    from Cons.IH [OF this] Suc show ?thesis by (cases x) auto
  qed
qed

subsection \<open>Classification and unhoistable nodes\<close>

lemma addUnhoistableNode_marks:
  "addUnhoistableNode n h P dt node info (un, his) = Some (Inr (un', his'))
   \<Longrightarrow> node \<in> set un' \<and> set un \<subseteq> set un'
       \<and> (\<forall>i. \<forall>e \<in> set (jm_entries (take i his')).
             e \<in> set (jm_entries (take i his)) \<or> (fst e \<in> set un' \<and> snd e = info))"
proof (induction n arbitrary: node un his un' his')
  case 0
  then show ?case by simp
next
  case (Suc n)
  show ?case
  proof (cases "node \<in> set un")
    case True
    with Suc.prems show ?thesis by simp
  next
    case False
    define F where "F = (\<lambda>dependantName st.
             case jm_get (dependencies (h ! P)) dependantName of
               None \<Rightarrow> throw TypeError
             | Some dependant \<Rightarrow> addUnhoistableNode n h P dt dependant info st)"
    define I where "I = (\<lambda>st :: addr list \<times> (addr, HoistInfo) jsmap.
        node \<in> set (fst st) \<and> set un \<subseteq> set (fst st)
        \<and> (\<forall>i. \<forall>e \<in> set (jm_entries (take i (snd st))).
              e \<in> set (jm_entries (take i his)) \<or> (fst e \<in> set (fst st) \<and> snd e = info)))"
    from Suc.prems(1) False have
      l: "cfold F (case jm_get dt (name (h ! node)) of None \<Rightarrow> [] | Some ds \<Rightarrow> ds)
            (js_add un node, jm_set his node info) = Some (Inr (un', his'))"
      by (simp add: F_def)
    have "I (un', his')"
    proof (rule cfold_inv [OF l])
      have n: "node \<in> set (js_add un node)" "set un \<subseteq> set (js_add un node)"
        by (auto simp: js_add_def)
      have "e \<in> set (jm_entries (take i his)) \<or> (fst e \<in> set (js_add un node) \<and> snd e = info)"
        if "e \<in> set (jm_entries (take i (jm_set his node info)))" for i e
      proof -
        from that jm_entries_take_set [of i his node info]
        have "e = (node, info) \<or> e \<in> set (jm_entries (take i his))" by blast
        with n(1) show ?thesis by auto
      qed
      with n show "I (js_add un node, jm_set his node info)"
        unfolding I_def fst_conv snd_conv by blast
    next
      fix x st st'
      assume I: "I st" and st: "F x st = Some (Inr st')"
      obtain u i where ui: "st = (u, i)" by (cases st)
      obtain u' i' where ui': "st' = (u', i')" by (cases st')
      from st ui ui' obtain d where
        d: "addUnhoistableNode n h P dt d info (u, i) = Some (Inr (u', i'))"
        by (auto simp: F_def split: option.splits)
      from Suc.IH [OF d] have
        1: "set u \<subseteq> set u'"
        and 2: "\<forall>j. \<forall>e \<in> set (jm_entries (take j i')).
               e \<in> set (jm_entries (take j i)) \<or> (fst e \<in> set u' \<and> snd e = info)"
        by simp_all
      from I ui have
        3: "node \<in> set u" "set un \<subseteq> set u"
        and 4: "\<forall>j. \<forall>e \<in> set (jm_entries (take j i)).
               e \<in> set (jm_entries (take j his)) \<or> (fst e \<in> set u \<and> snd e = info)"
        by (simp_all add: I_def)
      have "\<forall>j. \<forall>e \<in> set (jm_entries (take j i')).
               e \<in> set (jm_entries (take j his)) \<or> (fst e \<in> set u' \<and> snd e = info)"
      proof (intro allI ballI)
        fix j e assume "e \<in> set (jm_entries (take j i'))"
        with 2 have "e \<in> set (jm_entries (take j i)) \<or> (fst e \<in> set u' \<and> snd e = info)"
          by blast
        with 4 1 show "e \<in> set (jm_entries (take j his)) \<or> (fst e \<in> set u' \<and> snd e = info)"
          by blast
      qed
      with 1 3 ui' show "I st'" by (auto simp: I_def)
    qed
    then show ?thesis by (simp add: I_def)
  qed
qed

lemma mark_unhoistable_marks:
  "mark_unhoistable n h P dt i (un, his) = Some (Inr (un', his'))
   \<Longrightarrow> \<forall>e \<in> set (jm_entries (take i his)). (\<exists>r. snd e = NO r) \<longrightarrow> fst e \<in> set un
   \<Longrightarrow> (\<forall>e \<in> set (jm_entries his'). (\<exists>r. snd e = NO r) \<longrightarrow> fst e \<in> set un')
       \<and> (\<forall>e \<in> set (jm_entries his'). e \<in> set (jm_entries his) \<or> (\<exists>r. snd e = NO r))"
proof (induction n arbitrary: i un his)
  case 0
  then show ?case by simp
next
  case (Suc n)
  show ?case
  proof (cases "length his \<le> i")
    case True
    with Suc.prems show ?thesis by simp
  next
    case False
    then have il: "i < length his" by simp
    note ts = jm_entries_take_Suc [OF il]
    show ?thesis
    proof (cases "\<exists>node reason. his ! i = Some (node, NO reason)")
      case True
      then obtain node reason where e: "his ! i = Some (node, NO reason)" by blast
      with Suc.prems(1) False obtain u1 i1 where
        a: "addUnhoistableNode n h P dt node (NO reason) (un, his) = Some (Inr (u1, i1))"
        and m: "mark_unhoistable n h P dt (Suc i) (u1, i1) = Some (Inr (un', his'))"
        by (auto simp: bnd_Inr)
      from addUnhoistableNode_marks [OF a] have
        1: "node \<in> set u1" "set un \<subseteq> set u1"
        and 2: "\<forall>j. \<forall>e \<in> set (jm_entries (take j i1)).
               e \<in> set (jm_entries (take j his)) \<or> (fst e \<in> set u1 \<and> snd e = NO reason)"
        by simp_all
      have pre: "\<forall>e \<in> set (jm_entries (take (Suc i) i1)). (\<exists>r. snd e = NO r) \<longrightarrow> fst e \<in> set u1"
      proof (intro ballI impI)
        fix x assume x: "x \<in> set (jm_entries (take (Suc i) i1))" "\<exists>r. snd x = NO r"
        with 2 have "x \<in> set (jm_entries (take (Suc i) his)) \<or> fst x \<in> set u1" by blast
        then show "fst x \<in> set u1"
        proof
          assume "x \<in> set (jm_entries (take (Suc i) his))"
          with ts e have "x \<in> set (jm_entries (take i his)) \<or> x = (node, NO reason)" by auto
          with Suc.prems(2) x(2) 1 show ?thesis by auto
        qed
      qed
      from Suc.IH [OF m pre] have
        3: "\<forall>e \<in> set (jm_entries his'). (\<exists>r. snd e = NO r) \<longrightarrow> fst e \<in> set un'"
        and 4: "\<forall>e \<in> set (jm_entries his'). e \<in> set (jm_entries i1) \<or> (\<exists>r. snd e = NO r)"
        by simp_all
      have "\<forall>e \<in> set (jm_entries his'). e \<in> set (jm_entries his) \<or> (\<exists>r. snd e = NO r)"
      proof
        fix x assume "x \<in> set (jm_entries his')"
        with 4 have "x \<in> set (jm_entries i1) \<or> (\<exists>r. snd x = NO r)" by blast
        then show "x \<in> set (jm_entries his) \<or> (\<exists>r. snd x = NO r)"
        proof
          assume "x \<in> set (jm_entries i1)"
          then have "x \<in> set (jm_entries (take (length i1) i1))" by simp
          with 2 have "x \<in> set (jm_entries (take (length i1) his)) \<or> snd x = NO reason"
            by blast
          with jm_entries_take_subset [of "length i1" his] show ?thesis by blast
        qed simp
      qed
      with 3 show ?thesis by simp
    next
      case F2: False
      with Suc.prems(1) False have
        m: "mark_unhoistable n h P dt (Suc i) (un, his) = Some (Inr (un', his'))"
        by (auto split: option.splits prod.splits HoistInfo.splits)
      have pre: "\<forall>e \<in> set (jm_entries (take (Suc i) his)). (\<exists>r. snd e = NO r) \<longrightarrow> fst e \<in> set un"
      proof (intro ballI impI)
        fix x assume x: "x \<in> set (jm_entries (take (Suc i) his))" "\<exists>r. snd x = NO r"
        with ts have "x \<in> set (jm_entries (take i his)) \<or> his ! i = Some x" by auto
        then show "fst x \<in> set un"
        proof
          assume "x \<in> set (jm_entries (take i his))"
          with Suc.prems(2) x(2) show ?thesis by blast
        next
          assume "his ! i = Some x"
          with F2 x(2) show ?thesis by (cases x) auto
        qed
      qed
      from Suc.IH [OF m pre] show ?thesis .
    qed
  qed
qed

lemma classified:
  assumes b: "cfold (collect_hoistInfo h rnp path hdeps hi him oR) xs ([], [])
                = Some (Inr (his0, dt))"
    and c: "mark_unhoistable n h P dt 0 ([], his0) = Some (Inr (un, his))"
  shows "\<forall>k \<in> set (jm_keys his). k \<in> set un \<or> candidate h hi k"
proof
  fix k assume "k \<in> set (jm_keys his)"
  then obtain info where e: "(k, info) \<in> set (jm_entries his)" by (auto simp: jm_keys_def)
  from collect_candidate [OF b] have
    0: "\<forall>e \<in> set (jm_entries his0). (\<exists>r. snd e = NO r) \<or> candidate h hi (fst e)" by simp
  from mark_unhoistable_marks [OF c] have
    1: "\<forall>e \<in> set (jm_entries his). (\<exists>r. snd e = NO r) \<longrightarrow> fst e \<in> set un"
    and 2: "\<forall>e \<in> set (jm_entries his). e \<in> set (jm_entries his0) \<or> (\<exists>r. snd e = NO r)"
    by simp_all
  show "k \<in> set un \<or> candidate h hi k"
  proof (cases "\<exists>r. info = NO r")
    case True
    with 1 e show ?thesis by force
  next
    case False
    with 2 e have "(k, info) \<in> set (jm_entries his0)" by force
    with 0 False show ?thesis by force
  qed
qed

lemma addDep_regular:
  assumes V: "\<forall>k v. k \<notin> set (peerNames nd) \<longrightarrow> jm_get (dependencies nd) k = Some v \<longrightarrow> v \<in> V"
  shows "addDep n h nd dep (seen, deps) = Some (seen', deps') \<Longrightarrow> dep \<in> V \<Longrightarrow> set deps \<subseteq> V
    \<Longrightarrow> set deps' \<subseteq> V"
proof (induction n arbitrary: dep seen deps seen' deps')
  case 0
  then show ?case by simp
next
  case (Suc n)
  show ?case
  proof (cases "dep \<in> set seen")
    case True
    with Suc.prems show ?thesis by simp
  next
    case False
    define F where "F = (\<lambda>peerName (s, d).
               if peerName \<notin> set (peerNames nd) then
                 (case jm_get (dependencies nd) peerName of
                    Some peerDep \<Rightarrow>
                      if peerDep \<notin> set d then addDep n h nd peerDep (s, d) else Some (s, d)
                  | None \<Rightarrow> Some (s, d))
               else Some (s, d))"
    from Suc.prems(1) False obtain s1 d1 where
      l: "ofold F (peerNames (h ! dep)) (js_add seen dep, deps) = Some (s1, d1)"
      and r: "deps' = js_add d1 dep"
      by (auto simp: F_def)
    have "case (s1, d1) of (s, d) \<Rightarrow> set d \<subseteq> V"
    proof (rule ofold_inv [OF l])
      show "case (js_add seen dep, deps) of (s, d) \<Rightarrow> set d \<subseteq> V" using Suc.prems(3) by simp
    next
      fix x st st'
      assume I: "case st of (s, d) \<Rightarrow> set d \<subseteq> V" and st: "F x st = Some st'"
      obtain s d where sd: "st = (s, d)" by (cases st)
      obtain s' d' where sd': "st' = (s', d')" by (cases st')
      from I sd have dV: "set d \<subseteq> V" by simp
      from st sd sd' dV V Suc.IH show "case st' of (s, d) \<Rightarrow> set d \<subseteq> V"
        by (auto simp: F_def split: if_splits option.splits)
    qed
    with r Suc.prems(2) show ?thesis by (auto simp: js_add_def)
  qed
qed

lemma getSorted_regular:
  assumes "getSortedRegularDependencies n h N = Some ds" "wf_heap h" "N < length h"
  shows "\<forall>d \<in> set ds. name (h ! d) \<notin> set (peerNames (h ! N))"
proof -
  let ?V = "{d. name (h ! d) \<notin> set (peerNames (h ! N))}"
  have V: "\<forall>k v. k \<notin> set (peerNames (h ! N)) \<longrightarrow> jm_get (dependencies (h ! N)) k = Some v
             \<longrightarrow> v \<in> ?V"
    using wf_node_entry [OF wf_heap_node [OF assms(2,3)]] jm_get_entries by fastforce
  have "set ds \<subseteq> ?V"
  proof (rule ofold_inv [OF assms(1) [unfolded getSortedRegularDependencies_def],
        of "\<lambda>ds. set ds \<subseteq> ?V"])
    show "set [] \<subseteq> ?V" by simp
  next
    fix x s s'
    assume "set s \<subseteq> ?V"
      and "(if name (h ! x) \<notin> set (peerNames (h ! N))
           then map_option snd (addDep n h (h ! N) x ([], s)) else Some s) = Some s'"
    then show "set s' \<subseteq> ?V"
      using addDep_regular [OF V, of n h x "[]" s _ s']
      by (auto split: if_splits)
  qed
  then show ?thesis by blast
qed

subsection \<open>Hoisting and decoupling one node\<close>

lemma hoist_node_safe:
  assumes wf: "wf_heap h" and r: "R < length h" and pv: "P < length h" and n: "k < length h"
    and c: "k \<in> set un \<or> (name (h ! k) = p \<longrightarrow> p = name (h ! R) \<and> ident (h ! k) = ident (h ! R))"
    and nn: "\<forall>a \<in> set N. name (h ! a) \<noteq> p"
    and res: "hoist_node R P un k (h, N) = (h', N')"
  shows "peer_safe p R h h' \<and> (\<forall>a \<in> set N'. name (h ! a) \<noteq> p)"
proof (cases "k \<in> set un")
  case True
  with res nn show ?thesis by (simp add: hoist_node_def)
next
  case False
  define nm where "nm = name (h ! k)"
  define pn where "pn = (h ! P)\<lparr>dependencies := jm_delete (dependencies (h ! P)) nm,
                       hoistedDependencies := jm_set (hoistedDependencies (h ! P)) nm k,
                       reasons := jm_delete (reasons (h ! P)) nm\<rparr>"
  define h1 where "h1 = h[P := pn]"
  from c False have c': "nm = p \<longrightarrow> p = name (h ! R) \<and> ident (h ! k) = ident (h ! R)"
    by (simp add: nm_def)
  have dk: "distinct (jm_keys (dependencies (h ! R)))"
    using wf_heap_node [OF wf r] by (simp add: wf_node_def)
  have s1: "peer_safe p R h h1" unfolding h1_def
  proof (rule peer_safe_update)
    assume "P = R"
    show "\<forall>x. jm_get (dependencies pn) p = Some x \<longrightarrow> jm_get (dependencies (h ! R)) p = Some x"
    proof (cases "nm = p")
      case True
      with dk \<open>P = R\<close> show ?thesis by (simp add: pn_def jm_get_delete_same)
    next
      case False
      with \<open>P = R\<close> show ?thesis by (simp add: pn_def jm_get_delete_other)
    qed
  next
    assume "p \<noteq> name (h ! R)"
    with c' have "nm \<noteq> p" by auto
    then show "\<forall>x. jm_get (hoistedDependencies pn) p = Some x \<longrightarrow>
                   jm_get (hoistedDependencies (h ! P)) p = Some x"
      by (simp add: pn_def jm_get_set)
  qed (simp_all add: pn_def)
  have l1: "length h1 = length h" by (simp add: h1_def)
  from static_fields [OF peer_safe_static [OF s1]] r n
  have i1: "ident (h1 ! R) = ident (h ! R)" "ident (h1 ! k) = ident (h ! k)" by simp_all
  show ?thesis
  proof (cases "jm_get (dependencies (h1 ! R)) nm")
    case None
    show ?thesis
    proof (cases "ident (h1 ! R) \<noteq> ident (h1 ! k)")
      case True
      with None False res have r': "h' = set_dependency h1 R nm k" "N' = js_add N k"
        by (simp_all add: hoist_node_def Let_def nm_def pn_def h1_def)
      from True i1 c' have np: "nm \<noteq> p" by auto
      have "peer_safe p R h1 h'" unfolding r' set_dependency_def
        by (rule peer_safe_update) (use np in \<open>simp_all add: jm_get_set\<close>)
      from peer_safe_trans [OF s1 this r] nn np r'(2) show ?thesis
        by (auto simp: js_add_def nm_def)
    next
      case False': False
      with None False res have "h' = h1" "N' = N"
        by (simp_all add: hoist_node_def Let_def nm_def pn_def h1_def)
      with s1 nn show ?thesis by simp
    qed
  next
    case (Some hoistedNode)
    define hn where "hn = (h1 ! hoistedNode)
                        \<lparr>references := fold (\<lambda>reference rs. js_add rs reference)
                                         (references (h1 ! k)) (references (h1 ! hoistedNode))\<rparr>"
    from Some False res have r': "h' = h1[hoistedNode := hn]" "N' = N"
      by (simp_all add: hoist_node_def Let_def nm_def pn_def h1_def hn_def)
    have "peer_safe p R h1 h'" unfolding r'
      by (rule peer_safe_update) (simp_all add: hn_def)
    from peer_safe_trans [OF s1 this r] nn r'(2) show ?thesis by simp
  qed
qed

lemma fold_hoist_node_safe:
  "fold (hoist_node R P un) ks (h, N) = (h', N') \<Longrightarrow> wf_heap h \<Longrightarrow> R < length h
    \<Longrightarrow> P < length h
    \<Longrightarrow> \<forall>k \<in> set ks. k < length h
          \<and> (k \<in> set un \<or> (name (h ! k) = p \<longrightarrow> p = name (h ! R) \<and> ident (h ! k) = ident (h ! R)))
    \<Longrightarrow> \<forall>a \<in> set N. a < length h \<and> name (h ! a) \<noteq> p
    \<Longrightarrow> peer_safe p R h h' \<and> (\<forall>a \<in> set N'. name (h' ! a) \<noteq> p)"
proof (induction ks arbitrary: h N)
  case Nil
  then show ?case by simp
next
  case (Cons k ks)
  obtain h1 N1 where s: "hoist_node R P un k (h, N) = (h1, N1)"
    by (cases "hoist_node R P un k (h, N)")
  from Cons.prems(5,6) have kv: "k < length h" and Nv: "\<forall>a \<in> set N. a < length h" by auto
  from hoist_node_wf [OF Cons.prems(2,3,4) kv Nv s]
  have 1: "wf_heap h1" "length h1 = length h" "\<forall>a \<in> set N1. a < length h1" by auto
  from hoist_node_safe [OF Cons.prems(2,3,4) kv _ _ s, of p] Cons.prems(5,6)
  have 2: "peer_safe p R h h1" "\<forall>a \<in> set N1. name (h ! a) \<noteq> p" by auto
  note sf = static_fields [OF peer_safe_static [OF 2(1)]]
  from Cons.prems(1) s have f: "fold (hoist_node R P un) ks (h1, N1) = (h', N')" by simp
  have a: "\<forall>k \<in> set ks. k < length h1
          \<and> (k \<in> set un \<or> (name (h1 ! k) = p \<longrightarrow> p = name (h1 ! R) \<and> ident (h1 ! k) = ident (h1 ! R)))"
  proof
    fix x assume x: "x \<in> set ks"
    with Cons.prems(5) have xv: "x < length h" by simp
    from sf [OF xv] sf [OF Cons.prems(3)] x Cons.prems(5) 1(2)
    show "x < length h1
          \<and> (x \<in> set un \<or> (name (h1 ! x) = p \<longrightarrow> p = name (h1 ! R) \<and> ident (h1 ! x) = ident (h1 ! R)))"
      by simp
  qed
  have b: "\<forall>a \<in> set N1. a < length h1 \<and> name (h1 ! a) \<noteq> p"
  proof
    fix x assume x: "x \<in> set N1"
    with 1 have "x < length h" by simp
    from sf [OF this] x 1 2 show "x < length h1 \<and> name (h1 ! x) \<noteq> p" by simp
  qed
  from Cons.IH [OF f 1(1) _ _ a b] Cons.prems(3,4) 1(2)
  have 3: "peer_safe p R h1 h'" "\<forall>a \<in> set N'. name (h' ! a) \<noteq> p" by simp_all
  from peer_safe_trans [OF 2(1) 3(1) Cons.prems(3)] 3(2) show ?case by simp
qed

lemma decoupleGraphNode_safe:
  assumes r: "R < length h" and n: "node < length h"
    and g: "parent = R \<Longrightarrow> name (h ! node) \<noteq> p"
    and d: "decoupleGraphNode h parent node = (h', c)"
  shows "peer_safe p R h h'"
proof (cases "decoupled (h ! node)")
  case True
  with d show ?thesis by (simp add: decoupleGraphNode_def)
next
  case False
  define nd where "nd = h ! node"
  define clone0 where "clone0 = \<lparr>name = name nd, references = references nd, ident = ident nd,
                      locator = locator nd, dependencies = jm_copy (dependencies nd),
                      originalDependencies = jm_copy (originalDependencies nd),
                      hoistedDependencies = jm_copy (hoistedDependencies nd),
                      peerNames = peerNames nd, decoupled = True,
                      reasons = jm_copy (reasons nd)\<rparr>"
  define clone where "clone = (case jm_get (dependencies clone0) (name nd) of
                 Some selfDep \<Rightarrow>
                   if ident (h ! selfDep) = ident clone0
                   then clone0\<lparr>dependencies := jm_set (dependencies clone0) (name nd) (length h)\<rparr>
                   else clone0
               | None \<Rightarrow> clone0)"
  from d False have "(set_dependency (h @ [clone]) parent (name clone) (length h), length h) = (h', c)"
    unfolding decoupleGraphNode_def Let_def clone_def clone0_def nd_def
    by (simp only: if_False)
  then have res: "h' = set_dependency (h @ [clone]) parent (name clone) (length h)" by auto
  have cname: "name clone = name nd"
    by (auto simp: clone_def clone0_def split: option.splits)
  have chd: "hoistedDependencies clone = jm_copy (hoistedDependencies nd)"
    by (auto simp: clone_def clone0_def split: option.splits)
  have s1: "peer_safe p R h (h @ [clone])"
  proof (rule peer_safe_append [OF r])
    show "\<forall>x. jm_get (hoistedDependencies clone) p = Some x \<longrightarrow>
              (\<exists>b < length h. jm_get (hoistedDependencies (h ! b)) p = Some x)"
      using n by (auto simp: chd nd_def)
  qed
  have "peer_safe p R (h @ [clone]) h'" unfolding res set_dependency_def
  proof (rule peer_safe_update)
    assume "parent = R"
    with g r have "name clone \<noteq> p" by (simp add: cname nd_def)
    then show "\<forall>x. jm_get (dependencies (((h @ [clone]) ! parent)
                 \<lparr>dependencies := jm_set (dependencies ((h @ [clone]) ! parent)) (name clone)
                    (length h)\<rparr>)) p = Some x \<longrightarrow>
               jm_get (dependencies ((h @ [clone]) ! R)) p = Some x"
      using \<open>parent = R\<close> by (simp add: jm_get_set)
  qed simp_all
  from peer_safe_trans [OF s1 this r] show ?thesis .
qed

lemma reasons_update_safe: "peer_safe p R h (h[P := (h ! P)\<lparr>reasons := x\<rparr>])"
  by (rule peer_safe_update) simp_all

subsection \<open>One pass and the rounds of \<^verbatim>\<open>hoistGraph\<close>\<close>

lemma hoistNodeDependencies_safe:
  "hoistNodeDependencies n options tree R rnp hdeps hi him nodePath locatorPath P (h, seen, nn)
     = Some (Inr (h', seen', nn'))
   \<Longrightarrow> wf_heap h \<Longrightarrow> R < length h \<Longrightarrow> P < length h
   \<Longrightarrow> \<forall>a \<in> set nn. a < length h \<and> name (h ! a) \<noteq> p
   \<Longrightarrow> p \<in> set (peerNames (h ! R))
   \<Longrightarrow> \<forall>i. jm_get hi p = Some (Some i) \<longrightarrow> p = name (h ! R) \<and> i = ident (h ! R)
   \<Longrightarrow> peer_safe p R h h' \<and> (\<forall>a \<in> set nn'. name (h' ! a) \<noteq> p)"
proof (induction n arbitrary: nodePath locatorPath P h seen nn h' seen' nn')
  case 0
  then show ?case by simp
next
  case (Suc n)
  show ?case
  proof (cases "P \<in> set seen")
    case True
    with Suc.prems show ?thesis by auto
  next
    case False
    define step where "step = (\<lambda>unhoistableNodes hoistInfos node (h2, seenNodes2, nextNewNodes2).
             if node \<in> set unhoistableNodes \<and> locator (h2 ! node) \<notin> set locatorPath then
               (case jm_get hoistInfos node of
                  None \<Rightarrow> throw TypeError
                | Some hoistInfo \<Rightarrow>
                    (let h3 =
                           (case hoistInfo of
                              NO reason \<Rightarrow>
                                h2[P := (h2 ! P)
                                     \<lparr>reasons := jm_set (reasons (h2 ! P))
                                                   (name (h2 ! node)) reason\<rparr>]
                            | _ \<Rightarrow> h2)
                     in case decoupleGraphNode h3 P node of
                          (h4, decoupledNode) \<Rightarrow>
                            bnd (hoistNodeDependencies n options tree R rnp
                                   hdeps hi him (nodePath @ [P])
                                   (locatorPath @ [locator (h4 ! P)]) decoupledNode
                                   (h4, js_add seenNodes2 P, nextNewNodes2))
                              (\<lambda>(h5, seenNodes5, nextNewNodes5).
                                 ret (h5, js_delete seenNodes5 P, nextNewNodes5))))
             else ret (h2, seenNodes2, nextNewNodes2))"
    from Suc.prems(1) False obtain srt his0 dt unh his h1 nn1 children where
      a: "getSortedRegularDependencies n h P = Some srt"
      and b: "cfold (collect_hoistInfo h rnp (nodePath @ [P]) hdeps hi him (2 \<le> idebugLevel options))
               srt ([], []) = Some (Inr (his0, dt))"
      and c: "mark_unhoistable n h P dt 0 ([], his0) = Some (Inr (unh, his))"
      and d: "fold (hoist_node R P unh) (jm_keys his) (h, nn) = (h1, nn1)"
      and e: "getSortedRegularDependencies n h1 P = Some children"
      and f: "cfold (step unh his) children (h1, seen, nn1) = Some (Inr (h', seen', nn'))"
      unfolding step_def
      by (auto simp: bnd_Inr case_prod_Inr)
    let ?V = "{a. a < length h}"
    have V: "\<forall>k v. jm_get (dependencies (h ! P)) k = Some v \<longrightarrow> v \<in> ?V"
      using wf_node_value [OF wf_heap_node [OF Suc.prems(2,4)]] jm_get_values by fastforce
    from getSorted_valid [OF a Suc.prems(2,4)] have "set srt \<subseteq> ?V" by auto
    from collect_keys [OF b _ this] have "set (jm_keys his0) \<subseteq> ?V" by (simp add: jm_keys_def)
    from mark_unhoistable_valid [OF V c _ this] have uv: "set (jm_keys his) \<subseteq> ?V" by simp
    have nnv: "\<forall>a \<in> set nn. a < length h" using Suc.prems(5) by simp
    from fold_hoist_node_wf [OF d Suc.prems(2,3,4) _ nnv] uv
    have 1: "wf_heap h1" "ext h h1" "length h1 = length h" "\<forall>a \<in> set nn1. a < length h1"
      by auto
    have P1: "P < length h1" "R < length h1" using 1(3) Suc.prems(3,4) by simp_all
    have ks: "\<forall>k \<in> set (jm_keys his). k < length h
          \<and> (k \<in> set unh \<or> (name (h ! k) = p \<longrightarrow> p = name (h ! R) \<and> ident (h ! k) = ident (h ! R)))"
    proof
      fix k assume k: "k \<in> set (jm_keys his)"
      with classified [OF b c] have "k \<in> set unh \<or> candidate h hi k" by blast
      with Suc.prems(7) uv k
      show "k < length h
          \<and> (k \<in> set unh \<or> (name (h ! k) = p \<longrightarrow> p = name (h ! R) \<and> ident (h ! k) = ident (h ! R)))"
        by (auto simp: candidate_def)
    qed
    from fold_hoist_node_safe [OF d Suc.prems(2,3,4) ks Suc.prems(5)]
    have S1: "peer_safe p R h h1" "\<forall>a \<in> set nn1. name (h1 ! a) \<noteq> p" by simp_all
    note sf1 = static_fields [OF peer_safe_static [OF S1(1)]]
    from getSorted_valid [OF e 1(1) P1(1)] have cv: "\<forall>a \<in> set children. a < length h1" .
    from getSorted_regular [OF e 1(1) P1(1)]
    have cr: "\<forall>a \<in> set children. name (h1 ! a) \<notin> set (peerNames (h1 ! P))" .
    have p1: "p \<in> set (peerNames (h1 ! R))" using sf1 [OF Suc.prems(3)] Suc.prems(6) by simp
    define J where "J = (\<lambda>st :: heap \<times> addr list \<times> addr list.
        state_ok h1 st \<and> peer_safe p R h1 (fst st)
        \<and> (\<forall>a \<in> set (snd (snd st)). name (fst st ! a) \<noteq> p))"
    have "J (h', seen', nn')"
    proof (rule cfold_inv [OF f])
      show "J (h1, seen, nn1)" using 1 S1 by (simp add: J_def state_ok_def)
    next
      fix x st st1
      assume x: "x \<in> set children" and I: "J st"
        and s: "step unh his x st = Some (Inr st1)"
      obtain h2 s2 n2 where st: "st = (h2, s2, n2)" by (cases st)
      from I st have 2: "wf_heap h2" "ext h1 h2" "\<forall>a \<in> set n2. a < length h2"
        and S2: "peer_safe p R h1 h2" "\<forall>a \<in> set n2. name (h2 ! a) \<noteq> p"
        by (simp_all add: J_def state_ok_def)
      note sf2 = static_fields [OF peer_safe_static [OF S2(1)]]
      have v2: "x < length h2" "P < length h2" "R < length h2"
        using cv x P1 ext_valid [OF 2(2)] by auto
      show "J st1"
      proof (cases "x \<in> set unh \<and> locator (h2 ! x) \<notin> set locatorPath")
        case False
        with s st I show ?thesis by (auto simp: step_def)
      next
        case True
        define h3 where "h3 = (\<lambda>hoistInfo. case hoistInfo of
                              NO reason \<Rightarrow>
                                h2[P := (h2 ! P)
                                     \<lparr>reasons := jm_set (reasons (h2 ! P))
                                                   (name (h2 ! x)) reason\<rparr>]
                            | _ \<Rightarrow> h2)"
        from s st True obtain info h4 dn h5 s5 n5 where
          i: "jm_get his x = Some info"
          and dc: "decoupleGraphNode (h3 info) P x = (h4, dn)"
          and rc: "hoistNodeDependencies n options tree R rnp hdeps hi him (nodePath @ [P])
                     (locatorPath @ [locator (h4 ! P)]) dn (h4, js_add s2 P, n2)
                   = Some (Inr (h5, s5, n5))"
          and r: "st1 = (h5, js_delete s5 P, n5)"
          unfolding step_def h3_def
          by (auto simp: bnd_Inr case_prod_Inr Let_def split: option.splits)
        have 3: "wf_heap (h3 info) \<and> ext h2 (h3 info)"
          using reasons_update_wf [OF 2(1) v2(2)] 2(1)
          by (cases info) (auto simp: h3_def)
        have S3: "peer_safe p R h2 (h3 info)"
          using reasons_update_safe [of p R h2 P] by (cases info) (auto simp: h3_def)
        note sf3 = static_fields [OF peer_safe_static [OF S3]]
        from 3 have v3: "P < length (h3 info)" "x < length (h3 info)" "R < length (h3 info)"
          using v2 ext_valid by blast+
        from decoupleGraphNode_wf [OF _ v3(1,2) dc] 3
        have 4: "wf_heap h4" "ext (h3 info) h4" "dn < length h4" by simp_all
        have xp: "name (h3 info ! x) \<noteq> p" if "P = R"
        proof -
          from cr x have "name (h1 ! x) \<notin> set (peerNames (h1 ! P))" by blast
          with that p1 have "name (h1 ! x) \<noteq> p" by auto
          with sf2 [of x] sf3 [OF v2(1)] cv x show ?thesis by simp
        qed
        from decoupleGraphNode_safe [OF v3(3,2) xp dc]
        have S4: "peer_safe p R (h3 info) h4" by simp
        from peer_safe_trans [OF S3 S4 v2(3)] have S24: "peer_safe p R h2 h4" .
        note sf4 = static_fields [OF peer_safe_static [OF S24]]
        have e24: "ext h2 h4" using 3 4(2) ext_trans by blast
        have v4: "R < length h4" "\<forall>a \<in> set n2. a < length h4"
          using v2(3) 2(3) ext_valid [OF e24] by auto
        have n4: "\<forall>a \<in> set n2. a < length h4 \<and> name (h4 ! a) \<noteq> p"
        proof
          fix a assume a: "a \<in> set n2"
          with 2(3) have "a < length h2" by simp
          from sf4 [OF this] a S2(2) show "a < length h4 \<and> name (h4 ! a) \<noteq> p" by simp
        qed
        from sf1 [OF Suc.prems(3)] sf2 [OF P1(2)] sf4 [OF v2(3)]
        have R4: "name (h4 ! R) = name (h ! R)" "ident (h4 ! R) = ident (h ! R)"
          "peerNames (h4 ! R) = peerNames (h ! R)" by simp_all
        have A4: "\<forall>i. jm_get hi p = Some (Some i) \<longrightarrow> p = name (h4 ! R) \<and> i = ident (h4 ! R)"
          using Suc.prems(7) R4 by simp
        have p4: "p \<in> set (peerNames (h4 ! R))" using Suc.prems(6) R4 by simp
        from Suc.IH [OF rc 4(1) v4(1) 4(3) n4 p4 A4]
        have S5: "peer_safe p R h4 h5" "\<forall>a \<in> set n5. name (h5 ! a) \<noteq> p" by simp_all
        from hoistNodeDependencies_wf [OF rc 4(1) v4(1) 4(3) v4(2)]
        have 5: "wf_heap h5" "ext h4 h5" "\<forall>a \<in> set n5. a < length h5"
          by (simp_all add: state_ok_def)
        have "ext h1 h5" using 2(2) e24 5(2) ext_trans by blast
        moreover have "peer_safe p R h1 h5"
          using peer_safe_trans [OF S2(1) peer_safe_trans [OF S24 S5(1) v2(3)] P1(2)] .
        ultimately show ?thesis using 5 S5(2) r by (simp add: J_def state_ok_def)
      qed
    qed
    then have "peer_safe p R h1 h'" "\<forall>a \<in> set nn'. name (h' ! a) \<noteq> p"
      by (simp_all add: J_def)
    with peer_safe_trans [OF S1(1) this(1) Suc.prems(3)] show ?thesis by simp
  qed
qed

lemma hoistGraph_rounds_safe:
  "hoistGraph_rounds n options tree R rnp hdeps hi him newNodes (h, seen) = Some (Inr (h', seen'))
   \<Longrightarrow> wf_heap h \<Longrightarrow> R < length h
   \<Longrightarrow> \<forall>a \<in> set newNodes. a < length h \<and> name (h ! a) \<noteq> p
   \<Longrightarrow> p \<in> set (peerNames (h ! R))
   \<Longrightarrow> \<forall>i. jm_get hi p = Some (Some i) \<longrightarrow> p = name (h ! R) \<and> i = ident (h ! R)
   \<Longrightarrow> peer_safe p R h h'"
proof (induction n arbitrary: newNodes h seen)
  case 0
  then show ?case by simp
next
  case (Suc n)
  define step where "step = (\<lambda>dep (h1, seenNodes1, nextNewNodes1).
               if locator (h1 ! dep) = locator (h1 ! R) then ret (h1, seenNodes1, nextNewNodes1)
               else
                 (case decoupleGraphNode h1 R dep of
                    (h2, decoupledDependency) \<Rightarrow>
                      hoistNodeDependencies n options tree R rnp hdeps
                        hi him [R] [locator (h2 ! R)]
                        decoupledDependency (h2, seenNodes1, nextNewNodes1)))"
  from Suc.prems(1) obtain h1 s1 n1 where
    f: "cfold step newNodes (h, seen, []) = Some (Inr (h1, s1, n1))"
    and r: "(if n1 \<noteq> [] then hoistGraph_rounds n options tree R rnp hdeps hi him n1 (h1, s1)
             else ret (h1, s1)) = Some (Inr (h', seen'))"
    unfolding step_def by (auto simp: bnd_Inr case_prod_Inr)
  define J where "J = (\<lambda>st :: heap \<times> addr list \<times> addr list.
        state_ok h st \<and> peer_safe p R h (fst st)
        \<and> (\<forall>a \<in> set (snd (snd st)). name (fst st ! a) \<noteq> p))"
  have "J (h1, s1, n1)"
  proof (rule cfold_inv [OF f])
    show "J (h, seen, [])" using Suc.prems(2) by (simp add: J_def state_ok_def)
  next
    fix x st st1
    assume x: "x \<in> set newNodes" and I: "J st" and s: "step x st = Some (Inr st1)"
    obtain h2 s2 n2 where st: "st = (h2, s2, n2)" by (cases st)
    obtain h5 s5 n5 where st1: "st1 = (h5, s5, n5)" by (cases st1)
    from I st have 2: "wf_heap h2" "ext h h2" "\<forall>a \<in> set n2. a < length h2"
      and S2: "peer_safe p R h h2" "\<forall>a \<in> set n2. name (h2 ! a) \<noteq> p"
      by (simp_all add: J_def state_ok_def)
    note sf2 = static_fields [OF peer_safe_static [OF S2(1)]]
    from Suc.prems(4) x have xv: "x < length h" "name (h ! x) \<noteq> p" by auto
    have v2: "x < length h2" "R < length h2"
      using xv Suc.prems(3) ext_valid [OF 2(2)] by auto
    show "J st1"
    proof (cases "locator (h2 ! x) = locator (h2 ! R)")
      case True
      with s st I show ?thesis by (simp add: step_def)
    next
      case False
      with s st st1 obtain h3 dn where
        dc: "decoupleGraphNode h2 R x = (h3, dn)"
        and rc: "hoistNodeDependencies n options tree R rnp hdeps hi him [R] [locator (h3 ! R)] dn
                   (h3, s2, n2) = Some (Inr (h5, s5, n5))"
        unfolding step_def by (auto simp: case_prod_Inr)
      from decoupleGraphNode_wf [OF 2(1) v2(2,1) dc]
      have 3: "wf_heap h3" "ext h2 h3" "dn < length h3" by simp_all
      have "name (h2 ! x) \<noteq> p" using sf2 [OF xv(1)] xv(2) by simp
      from decoupleGraphNode_safe [OF v2(2,1) this dc]
      have S3: "peer_safe p R h2 h3" .
      note sf3 = static_fields [OF peer_safe_static [OF S3]]
      have v3: "R < length h3" "\<forall>a \<in> set n2. a < length h3"
        using v2(2) 2(3) ext_valid [OF 3(2)] by auto
      have n3: "\<forall>a \<in> set n2. a < length h3 \<and> name (h3 ! a) \<noteq> p"
      proof
        fix a assume a: "a \<in> set n2"
        with 2(3) have "a < length h2" by simp
        from sf3 [OF this] a S2(2) show "a < length h3 \<and> name (h3 ! a) \<noteq> p" by simp
      qed
      from sf2 [OF Suc.prems(3)] sf3 [OF v2(2)]
      have R3: "name (h3 ! R) = name (h ! R)" "ident (h3 ! R) = ident (h ! R)"
        "peerNames (h3 ! R) = peerNames (h ! R)" by simp_all
      have A3: "\<forall>i. jm_get hi p = Some (Some i) \<longrightarrow> p = name (h3 ! R) \<and> i = ident (h3 ! R)"
        using Suc.prems(6) R3 by simp
      have p3: "p \<in> set (peerNames (h3 ! R))" using Suc.prems(5) R3 by simp
      from hoistNodeDependencies_safe [OF rc 3(1) v3(1) 3(3) n3 p3 A3]
      have S5: "peer_safe p R h3 h5" "\<forall>a \<in> set n5. name (h5 ! a) \<noteq> p" by simp_all
      from hoistNodeDependencies_wf [OF rc 3(1) v3(1) 3(3) v3(2)]
      have 5: "wf_heap h5" "ext h3 h5" "\<forall>a \<in> set n5. a < length h5"
        by (simp_all add: state_ok_def)
      have "ext h h5" using 2(2) 3(2) 5(2) ext_trans by blast
      moreover have "peer_safe p R h h5"
        using peer_safe_trans [OF S2(1) peer_safe_trans [OF S3 S5(1) v2(2)] Suc.prems(3)] .
      ultimately show ?thesis using 5 S5(2) st1 by (simp add: J_def state_ok_def)
    qed
  qed
  then have 1: "wf_heap h1" "ext h h1" "\<forall>a \<in> set n1. a < length h1"
    and S1: "peer_safe p R h h1" "\<forall>a \<in> set n1. name (h1 ! a) \<noteq> p"
    by (simp_all add: J_def state_ok_def)
  show ?case
  proof (cases "n1 = []")
    case True
    with r S1 show ?thesis by simp
  next
    case False
    with r have rr: "hoistGraph_rounds n options tree R rnp hdeps hi him n1 (h1, s1)
                   = Some (Inr (h', seen'))" by simp
    from static_fields [OF peer_safe_static [OF S1(1)] Suc.prems(3)]
    have R1: "R < length h1" "name (h1 ! R) = name (h ! R)" "ident (h1 ! R) = ident (h ! R)"
      "peerNames (h1 ! R) = peerNames (h ! R)" by simp_all
    have n1: "\<forall>a \<in> set n1. a < length h1 \<and> name (h1 ! a) \<noteq> p" using 1(3) S1(2) by simp
    from Suc.IH [OF rr 1(1) R1(1) n1] Suc.prems(5,6) R1
    have "peer_safe p R h1 h'" by simp
    from peer_safe_trans [OF S1(1) this Suc.prems(3)] show ?thesis .
  qed
qed

lemma hoistGraph_safe:
  assumes "hoistGraph n options tree R rnp hdeps hi him h = Some (Inr h')"
    and "wf_heap h" "R < length h" "p \<in> set (peerNames (h ! R))"
    and "\<forall>i. jm_get hi p = Some (Some i) \<longrightarrow> p = name (h ! R) \<and> i = ident (h ! R)"
  shows "peer_safe p R h h'"
proof -
  from assms(1) obtain nn seen' where
    a: "getSortedRegularDependencies n h R = Some nn"
    and b: "hoistGraph_rounds n options tree R rnp hdeps hi him nn (h, []) = Some (Inr (h', seen'))"
    by (auto simp: hoistGraph_def bnd_Inr case_prod_Inr)
  from getSorted_valid [OF a assms(2,3)] getSorted_regular [OF a assms(2,3)] assms(4)
  have "\<forall>a \<in> set nn. a < length h \<and> name (h ! a) \<noteq> p" by auto
  from hoistGraph_rounds_safe [OF b assms(2,3) this assms(4,5)] show ?thesis .
qed

subsection \<open>The rounds of \<^verbatim>\<open>hoistTo\<close>\<close>

lemma next_candidate_peer:
  assumes "nm = p \<longrightarrow> length ids \<le> 1"
    and "next_candidate h R (nm, ids) (hi, him, c) = (hi', him', c')"
  shows "jm_get hi' p = jm_get hi p
    \<and> (\<forall>x. (p, x) \<in> set (jm_entries him') \<longrightarrow> (p, x) \<in> set (jm_entries him))"
proof (cases "1 < length ids \<and> \<not> jm_has (dependencies (h ! R)) nm")
  case True
  with assms(1) have np: "nm \<noteq> p" by auto
  from True assms(2) have r: "hi' = jm_set (jm_delete hi nm) nm (first_ident (tl ids))"
    "him' = jm_set him nm (tl ids)"
    by (simp_all add: next_candidate_def)
  from np have "jm_get hi' p = jm_get hi p" by (simp add: r jm_get_set jm_get_delete_other)
  moreover have "\<forall>x. (p, x) \<in> set (jm_entries him') \<longrightarrow> (p, x) \<in> set (jm_entries him)"
    using np jm_entries_set_other [of p _ him nm "tl ids"] by (auto simp: r)
  ultimately show ?thesis by simp
next
  case False
  with assms(2) show ?thesis by (auto simp: next_candidate_def)
qed

lemma fold_next_candidate_peer:
  "\<forall>e \<in> set es. fst e = p \<longrightarrow> length (snd e) \<le> 1
   \<Longrightarrow> fold (next_candidate h R) es (hi, him, c) = (hi', him', c')
   \<Longrightarrow> jm_get hi' p = jm_get hi p
       \<and> (\<forall>x. (p, x) \<in> set (jm_entries him') \<longrightarrow> (p, x) \<in> set (jm_entries him))"
proof (induction es arbitrary: hi him c)
  case Nil
  then show ?case by simp
next
  case (Cons e es)
  obtain nm ids where e: "e = (nm, ids)" by (cases e)
  obtain hi1 him1 c1 where s: "next_candidate h R (nm, ids) (hi, him, c) = (hi1, him1, c1)"
    by (cases "next_candidate h R (nm, ids) (hi, him, c)")
  from Cons.prems(1) e have "nm = p \<longrightarrow> length ids \<le> 1" by simp
  from next_candidate_peer [OF this s]
  have 1: "jm_get hi1 p = jm_get hi p"
    "\<forall>x. (p, x) \<in> set (jm_entries him1) \<longrightarrow> (p, x) \<in> set (jm_entries him)" by simp_all
  from Cons.prems e s have "fold (next_candidate h R) es (hi1, him1, c1) = (hi', him', c')"
    by simp
  from Cons.IH [OF _ this] Cons.prems(1) 1 show ?case by simp
qed

lemma next_candidates_peer:
  assumes "\<forall>ids. (p, ids) \<in> set (jm_entries him) \<longrightarrow> length ids \<le> 1"
    and "next_candidates h R (hi, him) = (hi', him', c)"
  shows "jm_get hi' p = jm_get hi p
    \<and> (\<forall>ids. (p, ids) \<in> set (jm_entries him') \<longrightarrow> length ids \<le> 1)"
proof -
  from assms(1) have "\<forall>e \<in> set (jm_entries him). fst e = p \<longrightarrow> length (snd e) \<le> 1" by auto
  from fold_next_candidate_peer [OF this, of h R hi him False hi' him' c] assms
  show ?thesis by (auto simp: next_candidates_def)
qed

lemma identMap_add_dep_entries:
  "p \<in> set P \<Longrightarrow> (p, x) \<in> set (jm_entries (identMap_add_dep h P dep m))
   \<Longrightarrow> (p, x) \<in> set (jm_entries m)"
  using jm_entries_set_other [of p x m "name (h ! dep)" "[ident (h ! dep)]"]
  by (auto simp: identMap_add_dep_def split: if_splits)

lemma identMap_add_key_entries:
  "p \<in> set P \<Longrightarrow> (p, x) \<in> set (jm_entries (identMap_add_key P key m))
   \<Longrightarrow> (p, x) \<in> set (jm_entries m)"
  by (auto simp: identMap_add_key_def Let_def split: if_splits dest: jm_entries_set_other)

lemma fold_add_dep_entries:
  "p \<in> set P \<Longrightarrow> (p, x) \<in> set (jm_entries (fold (identMap_add_dep h P) deps m))
   \<Longrightarrow> (p, x) \<in> set (jm_entries m)"
  by (induction deps arbitrary: m) (auto dest: identMap_add_dep_entries)

lemma fold_add_key_entries:
  "p \<in> set P \<Longrightarrow> (p, x) \<in> set (jm_entries (fold (identMap_add_key P) keys m))
   \<Longrightarrow> (p, x) \<in> set (jm_entries m)"
  by (induction keys arbitrary: m) (auto dest: identMap_add_key_entries)

lemma getHoistIdentMap_peer_entries:
  assumes "p \<in> set (peerNames (h ! R))"
    and "(p, ids) \<in> set (jm_entries (getHoistIdentMap h R pm))"
  shows "ids = [ident (h ! R)]"
proof -
  from assms(2) have
    "(p, ids) \<in> set (jm_entries (fold (identMap_add_key (peerNames (h ! R))) (sorted_keyList pm)
        (fold (identMap_add_dep h (peerNames (h ! R))) (jm_values (dependencies (h ! R)))
           [Some (name (h ! R), [ident (h ! R)])])))"
    by (simp add: getHoistIdentMap_def Let_def)
  from fold_add_dep_entries [OF assms(1) fold_add_key_entries [OF assms(1) this]]
  show ?thesis by simp
qed

lemma hoistTo_rounds_safe:
  "hoistTo_rounds n options tree R rnp hdeps (h, hi, him) = Some (Inr h')
   \<Longrightarrow> wf_heap h \<Longrightarrow> R < length h \<Longrightarrow> p \<in> set (peerNames (h ! R))
   \<Longrightarrow> \<forall>i. jm_get hi p = Some (Some i) \<longrightarrow> p = name (h ! R) \<and> i = ident (h ! R)
   \<Longrightarrow> \<forall>ids. (p, ids) \<in> set (jm_entries him) \<longrightarrow> length ids \<le> 1
   \<Longrightarrow> peer_safe p R h h'"
proof (induction n arbitrary: h hi him)
  case 0
  then show ?case by simp
next
  case (Suc n)
  from Suc.prems(1) obtain h1 hi1 him1 changed where
    a: "hoistGraph n options tree R rnp hdeps hi him h = Some (Inr h1)"
    and nc: "next_candidates h1 R (hi, him) = (hi1, him1, changed)"
    and b: "(if changed then hoistTo_rounds n options tree R rnp hdeps (h1, hi1, him1)
             else ret h1) = Some (Inr h')"
    by (auto simp: bnd_Inr case_prod_Inr)
  from hoistGraph_wf [OF a Suc.prems(2,3)] have 1: "wf_heap h1" "ext h h1" by simp_all
  from hoistGraph_safe [OF a Suc.prems(2,3,4,5)] have S1: "peer_safe p R h h1" .
  show ?case
  proof (cases changed)
    case True
    with b have rr: "hoistTo_rounds n options tree R rnp hdeps (h1, hi1, him1) = Some (Inr h')"
      by simp
    from static_fields [OF peer_safe_static [OF S1] Suc.prems(3)]
    have R1: "R < length h1" "name (h1 ! R) = name (h ! R)" "ident (h1 ! R) = ident (h ! R)"
      "peerNames (h1 ! R) = peerNames (h ! R)" by simp_all
    from next_candidates_peer [OF Suc.prems(6) nc]
    have 2: "jm_get hi1 p = jm_get hi p"
      "\<forall>ids. (p, ids) \<in> set (jm_entries him1) \<longrightarrow> length ids \<le> 1" by simp_all
    from Suc.IH [OF rr 1(1) R1(1) _ _ 2(2)] Suc.prems(4,5) R1 2(1)
    have "peer_safe p R h1 h'" by simp
    from peer_safe_trans [OF S1 this Suc.prems(3)] show ?thesis .
  next
    case False
    with b S1 show ?thesis by simp
  qed
qed

lemma hoistTo_rounds_peer:
  assumes r: "hoistTo_rounds n options tree R rnp hdeps
                (h, initial_hoistIdents (getHoistIdentMap h R pm), getHoistIdentMap h R pm)
              = Some (Inr h')"
    and wf: "wf_heap h" "R < length h" and p: "p \<in> set (peerNames (h ! R))"
  shows "peer_safe p R h h'"
proof (rule hoistTo_rounds_safe [OF r wf p])
  show "\<forall>i. jm_get (initial_hoistIdents (getHoistIdentMap h R pm)) p = Some (Some i)
          \<longrightarrow> p = name (h ! R) \<and> i = ident (h ! R)"
    using p by (auto simp: jm_get_initial_hoistIdents getHoistIdentMap_peer first_ident_def
        split: if_splits)
  show "\<forall>ids. (p, ids) \<in> set (jm_entries (getHoistIdentMap h R pm)) \<longrightarrow> length ids \<le> 1"
    using getHoistIdentMap_peer_entries [OF p] by fastforce
qed

text \<open>
  C10, amended.  Let \<open>p\<close> be a peer name of the hoist root \<open>R\<close>.

  If \<open>p\<close> is not the name of \<open>R\<close> itself: \<^verbatim>\<open>getHoistIdentMap\<close> records no entry for \<open>p\<close>;
  the initial \<^verbatim>\<open>hoistIdents\<close> has no ident for \<open>p\<close>; a pass of the loop of \<^verbatim>\<open>hoistTo\<close> that
  moves on to the next candidates leaves both maps without \<open>p\<close>; and \<^verbatim>\<open>getNodeHoistInfo\<close>,
  given a \<^verbatim>\<open>hoistIdents\<close> without \<open>p\<close>, classifies every node named \<open>p\<close> as \<^verbatim>\<open>NO\<close>.

  In a work tree that holds every dependency under its name, once (\<open>wf_heap\<close>: what
  \<^verbatim>\<open>cloneTree\<close> builds and \<^verbatim>\<open>hoistTo\<close> keeps), all the rounds of hoisting to \<open>R\<close>, started as
  \<^verbatim>\<open>hoistTo\<close> starts them, leave \<open>R\<close> without a new dependency under \<open>p\<close>: what \<open>R\<close> holds
  under \<open>p\<close> afterwards, it held before.  And if \<open>p\<close> is not the name of \<open>R\<close>, no node
  named \<open>p\<close> is hoisted: \<^verbatim>\<open>hoistedDependencies\<close>, where the code records every node it takes
  out of its parent, has afterwards no entry under \<open>p\<close> that was not there before.
\<close>

theorem peer_names_are_no_candidates:
  assumes "p \<in> set (peerNames (h ! R))"
  shows "(p \<noteq> name (h ! R) \<longrightarrow>
        jm_get (getHoistIdentMap h R popularityMap) p = None
      \<and> jm_get (initial_hoistIdents (getHoistIdentMap h R popularityMap)) p = None
      \<and> (\<forall>h' hoistIdents hoistIdentMap.
            jm_get hoistIdents p = None \<and> jm_get hoistIdentMap p = None \<longrightarrow>
              (case next_candidates h' R (hoistIdents, hoistIdentMap) of
                 (hoistIdents', hoistIdentMap', wasStateChanged) \<Rightarrow>
                   jm_get hoistIdents' p = None \<and> jm_get hoistIdentMap' p = None))
      \<and> (\<forall>h' rootNodePath nodePath node hoistedDeps hoistIdents hoistIdentMap outputReason.
            nodePath \<noteq> [] \<and> name (h' ! node) = p \<and> jm_get hoistIdents p = None \<longrightarrow>
              getNodeHoistInfo h' rootNodePath nodePath node hoistedDeps hoistIdents hoistIdentMap
                outputReason = Inr (NO None)))
    \<and> (wf_heap h \<and> R < length h \<longrightarrow>
        (\<forall>n options tree rootNodePath hoistedDeps h'.
           hoistTo_rounds n options tree R rootNodePath hoistedDeps
             (h, initial_hoistIdents (getHoistIdentMap h R popularityMap),
              getHoistIdentMap h R popularityMap) = Some (Inr h') \<longrightarrow>
             (\<forall>x. jm_get (dependencies (h' ! R)) p = Some x
                  \<longrightarrow> jm_get (dependencies (h ! R)) p = Some x)
           \<and> (p \<noteq> name (h ! R) \<longrightarrow>
                (\<forall>a < length h'. \<forall>x. jm_get (hoistedDependencies (h' ! a)) p = Some x \<longrightarrow>
                   (\<exists>b < length h. jm_get (hoistedDependencies (h ! b)) p = Some x)))))"
proof (intro conjI impI allI)
  assume "p \<noteq> name (h ! R)"
  with assms show 1: "jm_get (getHoistIdentMap h R popularityMap) p = None"
    by (simp add: getHoistIdentMap_peer)
  then show "jm_get (initial_hoistIdents (getHoistIdentMap h R popularityMap)) p = None"
    by (simp add: jm_get_initial_hoistIdents)
next
  fix h' and hoistIdents :: "(PackageName, Ident option) jsmap"
    and hoistIdentMap :: "(PackageName, Ident list) jsmap"
  assume "jm_get hoistIdents p = None \<and> jm_get hoistIdentMap p = None"
  then show "case next_candidates h' R (hoistIdents, hoistIdentMap) of
               (hoistIdents', hoistIdentMap', wasStateChanged) \<Rightarrow>
                 jm_get hoistIdents' p = None \<and> jm_get hoistIdentMap' p = None"
    using next_candidates_absent [of hoistIdentMap p hoistIdents h' R]
    by (cases "next_candidates h' R (hoistIdents, hoistIdentMap)") auto
next
  fix h' :: heap and nodePath :: "addr list" and rootNodePath node hoistedDeps hoistIdentMap
    and outputReason and hoistIdents :: "(PackageName, Ident option) jsmap"
  assume "nodePath \<noteq> [] \<and> name (h' ! node) = p \<and> jm_get hoistIdents p = None"
  then show "getNodeHoistInfo h' rootNodePath nodePath node hoistedDeps hoistIdents
               hoistIdentMap outputReason = Inr (NO None)"
    by (simp add: getNodeHoistInfo_no_candidate)
next
  fix n options tree rootNodePath hoistedDeps h' x
  assume wf: "wf_heap h \<and> R < length h"
    and r: "hoistTo_rounds n options tree R rootNodePath hoistedDeps
             (h, initial_hoistIdents (getHoistIdentMap h R popularityMap),
              getHoistIdentMap h R popularityMap) = Some (Inr h')"
    and g: "jm_get (dependencies (h' ! R)) p = Some x"
  from hoistTo_rounds_peer [OF r _ _ assms] wf have "peer_safe p R h h'" by simp
  with g show "jm_get (dependencies (h ! R)) p = Some x" by (simp add: peer_safe_def)
next
  fix n options tree rootNodePath hoistedDeps h' a x
  assume wf: "wf_heap h \<and> R < length h"
    and r: "hoistTo_rounds n options tree R rootNodePath hoistedDeps
             (h, initial_hoistIdents (getHoistIdentMap h R popularityMap),
              getHoistIdentMap h R popularityMap) = Some (Inr h')"
    and np: "p \<noteq> name (h ! R)" and a: "a < length h'"
    and g: "jm_get (hoistedDependencies (h' ! a)) p = Some x"
  from hoistTo_rounds_peer [OF r _ _ assms] wf have "peer_safe p R h h'" by simp
  with np a g show "\<exists>b < length h. jm_get (hoistedDependencies (h ! b)) p = Some x"
    unfolding peer_safe_def by blast
qed

theorem peer_names_are_no_candidates_witness:
  "jm_get (getHoistIdentMap (work_tree peer_root) 0
      (the (buildPopularityMap 20 (work_tree peer_root) 0))) ''b'' = None
   \<and> getNodeHoistInfo (work_tree peer_root) [''.@workspace:.''] [0, 1] 2 []
       (initial_hoistIdents (getHoistIdentMap (work_tree peer_root) 0
          (the (buildPopularityMap 20 (work_tree peer_root) 0))))
       (getHoistIdentMap (work_tree peer_root) 0
          (the (buildPopularityMap 20 (work_tree peer_root) 0))) False = Inr (NO None)
   \<and> (\<exists>h'. hoistTo_rounds 20 (internal_options (\<lambda>s. 0) no_options None) 0 0
              [''.@workspace:.''] []
              (work_tree peer_root,
               initial_hoistIdents (getHoistIdentMap (work_tree peer_root) 0
                 (the (buildPopularityMap 20 (work_tree peer_root) 0))),
               getHoistIdentMap (work_tree peer_root) 0
                 (the (buildPopularityMap 20 (work_tree peer_root) 0))) = Some (Inr h')
          \<and> jm_get (dependencies (h' ! 0)) ''b'' = None
          \<and> jm_get (dependencies (h' ! 0)) ''c'' = Some 3
          \<and> list_all (\<lambda>nd. jm_get (hoistedDependencies nd) ''b'' = None) h'
          \<and> jm_get (hoistedDependencies (h' ! 1)) ''c'' = Some 3)"
proof -
  define H where "H = work_tree peer_root"
  define PM where "PM = the (buildPopularityMap 20 H 0)"
  have a: "''b'' \<in> set (peerNames (H ! 0))" unfolding H_def by code_simp
  have b: "''b'' \<noteq> name (H ! 0)" unfolding H_def by code_simp
  have c: "name (H ! 2) = ''b''" unfolding H_def by code_simp
  have "cloneTree (2 * length peer_root + 2) peer_root 0 \<noteq> None" by code_simp
  then obtain g' h t where ct: "cloneTree (2 * length peer_root + 2) peer_root 0 = Some (g', h, t)"
    by auto
  from cloneTree_wf [OF ct] ct have wf: "wf_heap H" by (simp add: H_def work_tree_def)
  have l: "0 < length H" unfolding H_def by code_simp
  have d0: "jm_get (dependencies (H ! 0)) ''b'' = None" unfolding H_def by code_simp
  have hd0: "list_all (\<lambda>nd. jm_get (hoistedDependencies nd) ''b'' = None) H"
    unfolding H_def by code_simp
  have "case hoistTo_rounds 20 (internal_options (\<lambda>s. 0) no_options None) 0 0
              [''.@workspace:.''] []
              (work_tree peer_root,
               initial_hoistIdents (getHoistIdentMap (work_tree peer_root) 0
                 (the (buildPopularityMap 20 (work_tree peer_root) 0))),
               getHoistIdentMap (work_tree peer_root) 0
                 (the (buildPopularityMap 20 (work_tree peer_root) 0))) of
          Some (Inr h') \<Rightarrow> jm_get (dependencies (h' ! 0)) ''c'' = Some 3
             \<and> jm_get (hoistedDependencies (h' ! 1)) ''c'' = Some 3
        | _ \<Rightarrow> False"
    by code_simp
  then obtain h' where
    r: "hoistTo_rounds 20 (internal_options (\<lambda>s. 0) no_options None) 0 0 [''.@workspace:.''] []
          (H, initial_hoistIdents (getHoistIdentMap H 0 PM), getHoistIdentMap H 0 PM)
        = Some (Inr h')"
    and e: "jm_get (dependencies (h' ! 0)) ''c'' = Some 3"
      "jm_get (hoistedDependencies (h' ! 1)) ''c'' = Some 3"
    unfolding H_def PM_def by (auto split: option.splits sum.splits)
  note t = peer_names_are_no_candidates [OF a, of PM]
  from t b have 1: "jm_get (getHoistIdentMap H 0 PM) ''b'' = None" by blast
  from t b have 2: "jm_get (initial_hoistIdents (getHoistIdentMap H 0 PM)) ''b'' = None" by blast
  from t b have
    "[0, 1] \<noteq> ([] :: addr list) \<and> name (H ! 2) = ''b''
       \<and> jm_get (initial_hoistIdents (getHoistIdentMap H 0 PM)) ''b'' = None
     \<longrightarrow> getNodeHoistInfo H [''.@workspace:.''] [0, 1] 2 []
           (initial_hoistIdents (getHoistIdentMap H 0 PM)) (getHoistIdentMap H 0 PM) False
         = Inr (NO None)"
    by blast
  with c 2 have 3:
    "getNodeHoistInfo H [''.@workspace:.''] [0, 1] 2 []
       (initial_hoistIdents (getHoistIdentMap H 0 PM)) (getHoistIdentMap H 0 PM) False
     = Inr (NO None)"
    by simp
  from t wf l r have 4:
    "\<forall>x. jm_get (dependencies (h' ! 0)) ''b'' = Some x \<longrightarrow> jm_get (dependencies (H ! 0)) ''b'' = Some x"
    by blast
  from t wf l r b have 5:
    "\<forall>a < length h'. \<forall>x. jm_get (hoistedDependencies (h' ! a)) ''b'' = Some x \<longrightarrow>
        (\<exists>b < length H. jm_get (hoistedDependencies (H ! b)) ''b'' = Some x)"
    by blast
  from 4 d0 have 6: "jm_get (dependencies (h' ! 0)) ''b'' = None"
    by (cases "jm_get (dependencies (h' ! 0)) ''b''") auto
  have 7: "list_all (\<lambda>nd. jm_get (hoistedDependencies nd) ''b'' = None) h'"
    unfolding list_all_length
  proof (intro allI impI)
    fix a assume a: "a < length h'"
    show "jm_get (hoistedDependencies (h' ! a)) ''b'' = None"
    proof (cases "jm_get (hoistedDependencies (h' ! a)) ''b''")
      case (Some x)
      with 5 a obtain b where "b < length H" "jm_get (hoistedDependencies (H ! b)) ''b'' = Some x"
        by blast
      with hd0 show ?thesis by (simp add: list_all_length)
    qed simp
  qed
  from 1 3 r e 6 7 show ?thesis unfolding H_def PM_def by blast
qed

end
